theory Spec2Isabelle
  imports Main "HOL-Library.Word"
begin

unbundle bit_operations_syntax

section \<open>Python values and exceptions\<close>

text \<open>
  Python integers are unbounded: they are modelled as \<open>int\<close>. On \<open>int\<close>, HOL's
  \<open>div\<close> and \<open>mod\<close> round towards minus infinity like Python's \<open>//\<close> and \<open>%\<close>;
  they differ only at a zero divisor, where Python raises \<open>ZeroDivisionError\<close>, so every
  division of the source carries its own test for zero in the model.
  A \<open>bytes\<close> object is a list of 8-bit words.
\<close>

datatype error = ValueError | ZeroDivisionError | OverflowError | AttributeError | TypeError
  | ConfigurationError

type_synonym byte = "8 word"
type_synonym bytes = "byte list"

section \<open>core/ecc\_math.py\<close>

subsection \<open>modinv\<close>

text \<open>
  The loop of \<open>modinv\<close> over the state \<open>(lm, hm, low, high)\<close>. It is entered with
  any integers; \<open>low > 1\<close> makes \<open>high // low\<close> well defined and the new \<open>low\<close>
  is \<open>high mod low\<close>, which is smaller.
\<close>

function modinv_loop :: "int \<Rightarrow> int \<Rightarrow> int \<Rightarrow> int \<Rightarrow> int" where
  "modinv_loop lm hm low high =
     (if low > 1 then
        (let r = high div low;
             nm = hm - lm * r;
             new = high - low * r
         in modinv_loop nm lm new low)
      else lm)"
  by pat_completeness auto
termination
proof (relation "measure (\<lambda>(lm, hm, low, high). nat low)")
  show "wf (measure (\<lambda>(lm, hm, low, high). nat low))" by simp
next
  fix lm hm low high :: int and r nm new :: int
  assume low: "1 < low" and r: "r = high div low" and new: "new = high - low * r"
  have "new = high mod low"
    unfolding new r by (simp add: minus_mult_div_eq_mod)
  moreover have "high mod low < low" using low by simp
  moreover have "0 \<le> high mod low" using low by simp
  ultimately show "((nm, lm, new, low), (lm, hm, low, high))
      \<in> measure (\<lambda>(lm, hm, low, high). nat low)"
    using low by simp
qed

declare modinv_loop.simps [simp del]

definition modinv :: "int \<Rightarrow> int \<Rightarrow> error + int" where
  "modinv a m =
     (if a = 0 then Inl ValueError
      else if m = 0 then Inl ZeroDivisionError
      else Inr (modinv_loop 1 0 (a mod m) m mod m))"

subsection \<open>modular\_sqrt\<close>

text \<open>
  The built-in \<open>pow(b, e, m)\<close>: \<open>ValueError\<close> on a zero modulus; on a negative
  exponent the base is first replaced by its inverse modulo \<open>m\<close>, which raises
  \<open>ValueError\<close> when there is none. The result has the sign of the modulus, as \<open>mod\<close> has.
\<close>

definition py_pow :: "int \<Rightarrow> int \<Rightarrow> int \<Rightarrow> error + int" where
  "py_pow b e m =
     (if m = 0 then Inl ValueError
      else if 0 \<le> e then Inr (b ^ nat e mod m)
      else
        (case find (\<lambda>i. (b * i) mod m = 1 mod m) (map int [0 ..< nat \<bar>m\<bar>]) of
           None \<Rightarrow> Inl ValueError
         | Some i \<Rightarrow> Inr (i ^ nat (- e) mod m)))"

text \<open>
  The four loops of \<open>modular_sqrt\<close>. None of them is bounded in the source (the first
  spins on \<open>q = 0\<close>, the second looks for a non-residue, the inner one for the order of
  \<open>t\<close>), so each is a partial function; \<open>1 << (m - i - 1)\<close> raises \<open>ValueError\<close> on
  a negative shift count.
\<close>

partial_function (option) sqrt_split :: "int \<Rightarrow> int \<Rightarrow> (int \<times> int) option" where
  "sqrt_split q s = (if q mod 2 = 0 then sqrt_split (q div 2) (s + 1) else Some (q, s))"

partial_function (option) sqrt_find_z :: "int \<Rightarrow> int \<Rightarrow> (error + int) option" where
  "sqrt_find_z z p =
     (case py_pow z ((p - 1) div 2) p of
        Inl e \<Rightarrow> Some (Inl e)
      | Inr v \<Rightarrow> if v \<noteq> p - 1 then sqrt_find_z (z + 1) p else Some (Inr z))"

partial_function (option) sqrt_order :: "int \<Rightarrow> int \<Rightarrow> int \<Rightarrow> (error + int) option" where
  "sqrt_order t2i i p =
     (if t2i \<noteq> 1 then
        (case py_pow t2i 2 p of
           Inl e \<Rightarrow> Some (Inl e)
         | Inr t2i' \<Rightarrow> sqrt_order t2i' (i + 1) p)
      else Some (Inr i))"

partial_function (option) sqrt_loop ::
  "int \<Rightarrow> int \<Rightarrow> int \<Rightarrow> int \<Rightarrow> int \<Rightarrow> (error + int) option" where
  "sqrt_loop p m c t r =
     (if t = 0 then Some (Inr 0)
      else if t = 1 then Some (Inr r)
      else
        (case py_pow t 2 p of
           Inl e \<Rightarrow> Some (Inl e)
         | Inr t2i \<Rightarrow>
             (case sqrt_order t2i 1 p of
                None \<Rightarrow> None
              | Some (Inl e) \<Rightarrow> Some (Inl e)
              | Some (Inr i) \<Rightarrow>
                  (if m - i - 1 < 0 then Some (Inl ValueError)
                   else
                     (case py_pow c (push_bit (nat (m - i - 1)) 1) p of
                        Inl e \<Rightarrow> Some (Inl e)
                      | Inr b \<Rightarrow>
                          (if p = 0 then Some (Inl ZeroDivisionError)
                           else
                             (let c' = (b * b) mod p;
                                  t' = (t * c') mod p;
                                  r' = (r * b) mod p
                              in sqrt_loop p i c' t' r')))))))"

definition modular_sqrt :: "int \<Rightarrow> int \<Rightarrow> (error + int) option" where
  "modular_sqrt a p =
     (if a = 0 then Some (Inr 0)
      else if p = 2 then Some (Inr (a mod 2))
      else
        (case py_pow a ((p - 1) div 2) p of
           Inl e \<Rightarrow> Some (Inl e)
         | Inr ls \<Rightarrow>
             (if ls \<noteq> 1 then Some (Inl ValueError)
              else if p mod 4 = 3 then Some (py_pow a ((p + 1) div 4) p)
              else
                (case sqrt_split (p - 1) 0 of
                   None \<Rightarrow> None
                 | Some (q, s) \<Rightarrow>
                     (case sqrt_find_z 2 p of
                        None \<Rightarrow> None
                      | Some (Inl e) \<Rightarrow> Some (Inl e)
                      | Some (Inr z) \<Rightarrow>
                          (case py_pow z q p of
                             Inl e \<Rightarrow> Some (Inl e)
                           | Inr c \<Rightarrow>
                               (case py_pow a q p of
                                  Inl e \<Rightarrow> Some (Inl e)
                                | Inr t \<Rightarrow>
                                    (case py_pow a ((q + 1) div 2) p of
                                       Inl e \<Rightarrow> Some (Inl e)
                                     | Inr r \<Rightarrow> sqrt_loop p s c t r))))))))"

subsection \<open>Point and Curve\<close>

text \<open>
  The dataclass \<open>Point\<close> has two optional coordinates; the methods of \<open>Curve\<close> take
  and return \<open>Optional[Point]\<close>, so a point argument is a \<open>point option\<close> and the
  point at infinity has several representations: \<open>None\<close> and every \<open>Point\<close> with an
  absent coordinate.
\<close>

datatype point = Point (point_x: "int option") (point_y: "int option")

definition is_infinite :: "point \<Rightarrow> bool" where
  "is_infinite pt = (point_x pt = None \<or> point_y pt = None)"

text \<open>
  Modelled from the spec: the parameter objects of \<open>core/ecc_parameters.py\<close>, which is
  not part of the sources at hand. Section 3 of the specification gives their shape: a name,
  the prime modulus \<open>p\<close>, the coefficients \<open>a\<close> and \<open>b\<close>, the generator coordinates,
  the group order \<open>n\<close> and an optional cofactor \<open>h\<close>.
\<close>

record curve_parameters =
  prm_name :: string
  prm_p :: int
  prm_a :: int
  prm_b :: int
  prm_gx :: int
  prm_gy :: int
  prm_n :: int
  prm_h :: "int option"

record curve =
  curve_name :: string
  curve_p :: int
  curve_a :: int
  curve_b :: int
  curve_g :: point
  curve_n :: int
  curve_h :: int

definition Curve :: "curve_parameters \<Rightarrow> curve" where
  "Curve params =
     \<lparr> curve_name = prm_name params,
       curve_p = prm_p params,
       curve_a = prm_a params,
       curve_b = prm_b params,
       curve_g = Point (Some (prm_gx params)) (Some (prm_gy params)),
       curve_n = prm_n params,
       curve_h = (case prm_h params of None \<Rightarrow> 1 | Some h \<Rightarrow> h) \<rparr>"

definition is_on_curve :: "curve \<Rightarrow> point option \<Rightarrow> error + bool" where
  "is_on_curve c pt =
     (if pt = None \<or> is_infinite (the pt) then Inr True
      else
        (let x = the (point_x (the pt)); y = the (point_y (the pt))
         in if curve_p c = 0 then Inl ZeroDivisionError
            else Inr ((y ^ 2 - (x ^ 3 + curve_a c * x + curve_b c)) mod curve_p c = 0)))"

text \<open>
  \<open>point_add\<close>, branch by branch in the order of the source. The test
  \<open>p.x == q.x and (p.y + q.y) % self.p == 0\<close> evaluates the remainder only when the
  abscissas are equal; \<open>modinv\<close> raises before any later remainder is taken.
\<close>

definition point_add :: "curve \<Rightarrow> point option \<Rightarrow> point option \<Rightarrow> error + point option" where
  "point_add c P Q =
     (if P = None \<or> is_infinite (the P) then Inr Q
      else if Q = None \<or> is_infinite (the Q) then Inr P
      else
        (let px = the (point_x (the P)); py = the (point_y (the P));
             qx = the (point_x (the Q)); qy = the (point_y (the Q))
         in if px = qx \<and> curve_p c = 0 then Inl ZeroDivisionError
            else if px = qx \<and> (py + qy) mod curve_p c = 0 then Inr None
            else
              (case (if px = qx then modinv (2 * py) (curve_p c)
                     else modinv (qx - px) (curve_p c)) of
                 Inl e \<Rightarrow> Inl e
               | Inr i \<Rightarrow>
                   (let m = (if px = qx then (3 * px * px + curve_a c) * i mod curve_p c
                             else (qy - py) * i mod curve_p c);
                        xr = (m * m - px - qx) mod curve_p c;
                        yr = (m * (px - xr) - py) mod curve_p c
                    in Inr (Some (Point (Some xr) (Some yr)))))))"

text \<open>
  The loop of \<open>scalar_mult\<close> runs while \<open>k\<close> is not zero and shifts \<open>k\<close> right, so
  on a negative \<open>k\<close> it never leaves \<open>k = -1\<close>: the loop is a partial function and
  \<open>None\<close> of the outer option stands for a run that does not return. An exception
  of \<open>point_add\<close> ends the loop.
\<close>

partial_function (option) scalar_mult_loop ::
  "curve \<Rightarrow> int \<Rightarrow> point option \<Rightarrow> point option \<Rightarrow> (error + point option) option" where
  "scalar_mult_loop c k result addend =
     (if k = 0 then Some (Inr result)
      else
        (case (if k AND 1 \<noteq> 0 then point_add c result addend else Inr result) of
           Inl e \<Rightarrow> Some (Inl e)
         | Inr result' \<Rightarrow>
             (case point_add c addend addend of
                Inl e \<Rightarrow> Some (Inl e)
              | Inr addend' \<Rightarrow> scalar_mult_loop c (drop_bit 1 k) result' addend')))"

definition scalar_mult :: "curve \<Rightarrow> int \<Rightarrow> point option \<Rightarrow> (error + point option) option" where
  "scalar_mult c k p0 =
     (let p = (if p0 = None then Some (curve_g c) else p0)
      in if curve_n c = 0 then Some (Inl ZeroDivisionError)
         else if k mod curve_n c = 0 \<or> p = None then Some (Inr None)
         else scalar_mult_loop c k None p)"


section \<open>Byte strings and integers\<close>

text \<open>
  \<open>int.from_bytes(b, "big")\<close>, \<open>int.bit_length()\<close> (the number of bits of the
  absolute value) and \<open>int.to_bytes(length, "big")\<close>, which raises
  \<open>OverflowError\<close> on a negative integer and on one that does not fit.
\<close>

definition from_bytes :: "bytes \<Rightarrow> int" where
  "from_bytes bs = foldl (\<lambda>acc b. acc * 256 + uint b) 0 bs"

fun bit_length_nat :: "nat \<Rightarrow> nat" where
  "bit_length_nat n = (if n = 0 then 0 else Suc (bit_length_nat (n div 2)))"

declare bit_length_nat.simps [simp del]

definition bit_length :: "int \<Rightarrow> int" where
  "bit_length i = int (bit_length_nat (nat \<bar>i\<bar>))"

fun be_digits :: "nat \<Rightarrow> int \<Rightarrow> bytes" where
  "be_digits 0 i = []"
| "be_digits (Suc l) i = be_digits l (i div 256) @ [word_of_int (i mod 256)]"

definition to_bytes :: "int \<Rightarrow> int \<Rightarrow> error + bytes" where
  "to_bytes i l =
     (if l < 0 then Inl ValueError
      else if i < 0 \<or> 256 ^ nat l \<le> i then Inl OverflowError
      else Inr (be_digits (nat l) i))"

section \<open>algorithms/deterministic\_nonce.py\<close>

text \<open>
  The hash constructor handed to \<open>generate_k\<close> comes from \<open>hashlib\<close> and is used
  through \<open>digest\<close>, \<open>digest_size\<close> and \<open>hmac.new(key, msg, hash_func).digest()\<close>;
  these three are the fields of the capability.
\<close>

record hash_func =
  digest :: "bytes \<Rightarrow> bytes"
  digest_size :: nat
  hmac_digest :: "bytes \<Rightarrow> bytes \<Rightarrow> bytes"

definition bits2int :: "bytes \<Rightarrow> int \<Rightarrow> int" where
  "bits2int b qlen =
     (let i = from_bytes b; blen = int (length b) * 8
      in if blen > qlen then drop_bit (nat (blen - qlen)) i else i)"

definition int2octets :: "int \<Rightarrow> int \<Rightarrow> error + bytes" where
  "int2octets x rolen = to_bytes x rolen"

definition bits2octets :: "bytes \<Rightarrow> int \<Rightarrow> int \<Rightarrow> error + bytes" where
  "bits2octets b q qlen =
     (let z1 = bits2int b qlen;
          z2 = (if z1 \<ge> q then z1 - q else z1);
          rolen = (qlen + 7) div 8
      in int2octets z2 rolen)"

text \<open>
  The inner loop of \<open>generate_k\<close> appends HMAC outputs to \<open>T\<close> until it holds
  \<open>rolen\<close> bytes, the outer loop draws candidates until one lies in \<open>[1, q - 1]\<close>.
  Neither has a bound in the source, so both are partial functions.
\<close>

partial_function (option) fill_T ::
  "hash_func \<Rightarrow> int \<Rightarrow> bytes \<Rightarrow> bytes \<Rightarrow> bytes \<Rightarrow> (bytes \<times> bytes) option" where
  "fill_T hf rolen K V T =
     (if int (length T) < rolen then
        (let V' = hmac_digest hf K V in fill_T hf rolen K V' (T @ V'))
      else Some (V, T))"

partial_function (option) candidate_loop ::
  "hash_func \<Rightarrow> int \<Rightarrow> int \<Rightarrow> int \<Rightarrow> bytes \<Rightarrow> bytes \<Rightarrow> int option" where
  "candidate_loop hf q qlen rolen K V =
     Option.bind (fill_T hf rolen K V [])
       (\<lambda>(V1, T).
          (let k = bits2int T qlen
           in if 1 \<le> k \<and> k < q then Some k
              else
                (let K' = hmac_digest hf K (V1 @ [0]);
                     V' = hmac_digest hf K' V1
                 in candidate_loop hf q qlen rolen K' V')))"

definition generate_k :: "hash_func \<Rightarrow> int \<Rightarrow> int \<Rightarrow> bytes \<Rightarrow> (error + int) option" where
  "generate_k hf q x h1 =
     (let qlen = bit_length q;
          hlen = digest_size hf;
          rolen = (qlen + 7) div 8;
          V0 = replicate hlen (1 :: byte);
          K0 = replicate hlen (0 :: byte)
      in case int2octets x rolen of
           Inl e \<Rightarrow> Some (Inl e)
         | Inr xo \<Rightarrow>
             (case bits2octets h1 q qlen of
                Inl e \<Rightarrow> Some (Inl e)
              | Inr ho \<Rightarrow>
                  (let bx = xo @ ho;
                       K1 = hmac_digest hf K0 (V0 @ [0] @ bx);
                       V1 = hmac_digest hf K1 V0;
                       K2 = hmac_digest hf K1 (V1 @ [1] @ bx);
                       V2 = hmac_digest hf K2 V1
                   in map_option Inr (candidate_loop hf q qlen rolen K2 V2))))"


section \<open>algorithms/ecdsa\_signer.py\<close>

text \<open>
  Modelled from the spec: \<open>get_curve\<close> of \<open>core/ecc_parameters.py\<close>, which is not
  part of the sources at hand: the lookup of a curve name in the table of curve
  parameters, an unknown name being the configuration error of section 7.
\<close>

definition get_curve :: "(string \<rightharpoonup> curve_parameters) \<Rightarrow> string \<Rightarrow> error + curve_parameters" where
  "get_curve curves curve_name' =
     (case curves curve_name' of None \<Rightarrow> Inl ConfigurationError | Some params \<Rightarrow> Inr params)"

record hashlib =
  sha256 :: hash_func
  sha384 :: hash_func
  sha512 :: hash_func

record signer =
  sg_curve_params :: curve_parameters
  sg_curve :: curve
  sg_hash_func :: hash_func

definition ECDSASigner ::
  "(string \<rightharpoonup> curve_parameters) \<Rightarrow> hashlib \<Rightarrow> string \<Rightarrow> error + signer" where
  "ECDSASigner curves hl curve_name' =
     (case get_curve curves curve_name' of
        Inl e \<Rightarrow> Inl e
      | Inr params \<Rightarrow>
          Inr \<lparr> sg_curve_params = params,
                sg_curve = Curve params,
                sg_hash_func =
                  (if curve_name' = ''P-256'' then sha256 hl
                   else if curve_name' = ''P-384'' then sha384 hl else sha512 hl) \<rparr>)"

text \<open>
  \<open>generate_keypair\<close> reads \<open>os.urandom\<close>: the function \<open>urandom\<close> gives the bytes
  the operating system returns for a request of the given size.
\<close>

definition generate_keypair ::
  "signer \<Rightarrow> (nat \<Rightarrow> bytes) \<Rightarrow> (error + bytes \<times> bytes) option" where
  "generate_keypair sg urandom =
     (let c = sg_curve sg;
          rnd = urandom (nat (bit_length (prm_n (sg_curve_params sg)) div 8 + 8))
      in if curve_n c = 0 then Some (Inl ZeroDivisionError)
         else
           (let private_key = from_bytes rnd mod curve_n c
            in case scalar_mult c private_key None of
                 None \<Rightarrow> None
               | Some (Inl e) \<Rightarrow> Some (Inl e)
               | Some (Inr None) \<Rightarrow> Some (Inl AttributeError)
               | Some (Inr (Some public_point)) \<Rightarrow>
                   (case point_x public_point of
                      None \<Rightarrow> Some (Inl AttributeError)
                    | Some x \<Rightarrow>
                        (case to_bytes x ((bit_length x + 7) div 8) of
                           Inl e \<Rightarrow> Some (Inl e)
                         | Inr xb \<Rightarrow>
                             (case point_y public_point of
                                None \<Rightarrow> Some (Inl AttributeError)
                              | Some y \<Rightarrow>
                                  (case to_bytes y ((bit_length y + 7) div 8) of
                                     Inl e \<Rightarrow> Some (Inl e)
                                   | Inr yb \<Rightarrow>
                                       (case to_bytes private_key
                                               ((bit_length (curve_n c) + 7) div 8) of
                                          Inl e \<Rightarrow> Some (Inl e)
                                        | Inr private_bytes \<Rightarrow>
                                            Some (Inr (xb @ yb, private_bytes)))))))))"

definition sign :: "signer \<Rightarrow> bytes \<Rightarrow> bytes \<Rightarrow> (error + bytes) option" where
  "sign sg private_key message =
     (let hf = sg_hash_func sg; c = sg_curve sg;
          z = from_bytes (digest hf message);
          d = from_bytes private_key
      in case generate_k hf (curve_n c) d (digest hf message) of
           None \<Rightarrow> None
         | Some (Inl e) \<Rightarrow> Some (Inl e)
         | Some (Inr k) \<Rightarrow>
             (case scalar_mult c k None of
                None \<Rightarrow> None
              | Some (Inl e) \<Rightarrow> Some (Inl e)
              | Some (Inr None) \<Rightarrow> Some (Inl AttributeError)
              | Some (Inr (Some R)) \<Rightarrow>
                  (case point_x R of
                     None \<Rightarrow> Some (Inl TypeError)
                   | Some Rx \<Rightarrow>
                       (if curve_n c = 0 then Some (Inl ZeroDivisionError)
                        else
                          (let r = Rx mod curve_n c
                           in case modinv k (curve_n c) of
                                Inl e \<Rightarrow> Some (Inl e)
                              | Inr ki \<Rightarrow>
                                  (let s = (ki * (z + r * d)) mod curve_n c
                                   in case to_bytes r ((bit_length r + 7) div 8) of
                                        Inl e \<Rightarrow> Some (Inl e)
                                      | Inr r_bytes \<Rightarrow>
                                          (case to_bytes s ((bit_length s + 7) div 8) of
                                             Inl e \<Rightarrow> Some (Inl e)
                                           | Inr s_bytes \<Rightarrow>
                                               Some (Inr (r_bytes @ s_bytes)))))))))"

definition verify :: "signer \<Rightarrow> bytes \<Rightarrow> bytes \<Rightarrow> bytes \<Rightarrow> (error + bool) option" where
  "verify sg public_key message signature =
     (let hf = sg_hash_func sg; c = sg_curve sg;
          r_len = length signature div 2;
          r = from_bytes (take r_len signature);
          s = from_bytes (drop r_len signature);
          z = from_bytes (digest hf message);
          x_bytes = take (length public_key div 2) public_key;
          y_bytes = drop (length public_key div 2) public_key;
          pub_point = Point (Some (from_bytes x_bytes)) (Some (from_bytes y_bytes))
      in case is_on_curve c (Some pub_point) of
           Inl e \<Rightarrow> Some (Inl e)
         | Inr False \<Rightarrow> Some (Inr False)
         | Inr True \<Rightarrow>
             (case modinv s (curve_n c) of
                Inl e \<Rightarrow> Some (Inl e)
              | Inr w \<Rightarrow>
                  (let u1 = (z * w) mod curve_n c;
                       u2 = (r * w) mod curve_n c
                   in case scalar_mult c u1 None of
                        None \<Rightarrow> None
                      | Some (Inl e) \<Rightarrow> Some (Inl e)
                      | Some (Inr P1) \<Rightarrow>
                          (case scalar_mult c u2 (Some pub_point) of
                             None \<Rightarrow> None
                           | Some (Inl e) \<Rightarrow> Some (Inl e)
                           | Some (Inr P2) \<Rightarrow>
                               (case point_add c P1 P2 of
                                  Inl e \<Rightarrow> Some (Inl e)
                                | Inr None \<Rightarrow> Some (Inr False)
                                | Inr (Some pt) \<Rightarrow>
                                    (case point_x pt of
                                       None \<Rightarrow> Some (Inl TypeError)
                                     | Some x \<Rightarrow> Some (Inr (x mod curve_n c = r))))))))"

section \<open>algorithms/ecdh.py\<close>

record ecdh =
  ecdh_params :: curve_parameters
  ecdh_curve :: curve

definition ECDH :: "(string \<rightharpoonup> curve_parameters) \<Rightarrow> string \<Rightarrow> error + ecdh" where
  "ECDH curves curve_name' =
     (case curves curve_name' of
        None \<Rightarrow> Inl ValueError
      | Some params \<Rightarrow> Inr \<lparr> ecdh_params = params, ecdh_curve = Curve params \<rparr>)"

text \<open>
  \<open>secrets.randbelow(bound)\<close> raises \<open>ValueError\<close> unless the bound is positive;
  \<open>randbelow\<close> gives the value drawn for a bound.
\<close>

definition ecdh_generate_keypair ::
  "ecdh \<Rightarrow> (int \<Rightarrow> int) \<Rightarrow> (error + point option \<times> int) option" where
  "ecdh_generate_keypair e randbelow =
     (let c = ecdh_curve e
      in if curve_n c - 1 \<le> 0 then Some (Inl ValueError)
         else
           (let private_scalar = randbelow (curve_n c - 1) + 1
            in case scalar_mult c private_scalar None of
                 None \<Rightarrow> None
               | Some (Inl er) \<Rightarrow> Some (Inl er)
               | Some (Inr public_point) \<Rightarrow> Some (Inr (public_point, private_scalar))))"

definition derive_shared_secret ::
  "ecdh \<Rightarrow> int \<Rightarrow> point option \<Rightarrow> (error + int) option" where
  "derive_shared_secret e private_scalar peer_public_point =
     (case scalar_mult (ecdh_curve e) private_scalar peer_public_point of
        None \<Rightarrow> None
      | Some (Inl er) \<Rightarrow> Some (Inl er)
      | Some (Inr None) \<Rightarrow> Some (Inl ValueError)
      | Some (Inr (Some shared_point)) \<Rightarrow>
          (case point_x shared_point of
             None \<Rightarrow> Some (Inl ValueError)
           | Some x \<Rightarrow> if is_infinite shared_point then Some (Inl ValueError) else Some (Inr x)))"


section \<open>The curve P-256\<close>

text \<open>
  Modelled from the spec: the entry \<open>P-256\<close> of the curve table in
  \<open>core/ecc_parameters.py\<close>, which is not part of the sources at hand. The specification
  names the curve and the shape of its entry (section 3); the values are those of the NIST
  curve P-256, the coefficient \<open>a\<close> being \<open>-3\<close> reduced modulo \<open>p\<close>.
\<close>

definition P256 :: curve_parameters where
  "P256 =
     \<lparr> prm_name = ''P-256'',
       prm_p = 115792089210356248762697446949407573530086143415290314195533631308867097853951,
       prm_a = 115792089210356248762697446949407573530086143415290314195533631308867097853948,
       prm_b = 41058363725152142129326129780047268409114441015993725554835256314039467401291,
       prm_gx = 48439561293906451759052585252797914202762949526041747995844080717082404635286,
       prm_gy = 36134250956749795798585127919587881956611106672985015071877198253568414405109,
       prm_n = 115792089210356248762697446949407573529996955224135760342422259061068512044369,
       prm_h = Some 1 \<rparr>"

section \<open>Notions used in the statements\<close>

text \<open>
  A prime modulus, decided by trial division so that it can be computed; a point whose
  coordinates are reduced into \<open>[0, p - 1]\<close> (a point at infinity, in any representation,
  has none to reduce); a point that passes \<open>is_on_curve\<close>.
\<close>

definition is_prime :: "int \<Rightarrow> bool" where
  "is_prime p = (1 < p \<and> (\<forall>d \<in> set [2 .. p - 1]. \<not> d dvd p))"

definition infinity :: "point option \<Rightarrow> bool" where
  "infinity P = (P = None \<or> is_infinite (the P))"

definition reduced :: "curve \<Rightarrow> point option \<Rightarrow> bool" where
  "reduced c P =
     (infinity P \<or>
      (0 \<le> the (point_x (the P)) \<and> the (point_x (the P)) < curve_p c \<and>
       0 \<le> the (point_y (the P)) \<and> the (point_y (the P)) < curve_p c))"

definition on_curve :: "curve \<Rightarrow> point option \<Rightarrow> bool" where
  "on_curve c P = (is_on_curve c P = Inr True)"

definition group_point :: "curve \<Rightarrow> point option \<Rightarrow> bool" where
  "group_point c P = (on_curve c P \<and> reduced c P)"

text \<open>
  A small curve for worked examples: \<open>y\<^sup>2 = x\<^sup>3 + 2 x + 2\<close> over the field of \<open>17\<close>
  elements, with the generator \<open>(5, 1)\<close> of order \<open>19\<close>.
\<close>

definition toy_params :: curve_parameters where
  "toy_params =
     \<lparr> prm_name = ''toy-17'', prm_p = 17, prm_a = 2, prm_b = 2,
       prm_gx = 5, prm_gy = 1, prm_n = 19, prm_h = None \<rparr>"

text \<open>
  The signer that \<open>ECDSASigner("P-256")\<close> builds from the P-256 entry of the curve table
  and a hash capability, and two public keys in the encoding of \<open>generate_keypair\<close>: the
  generator itself (private key \<open>1\<close>) and the public point of the private key \<open>43\<close>,
  whose ordinate takes \<open>31\<close> bytes where its abscissa takes \<open>32\<close>.
\<close>

definition P256_signer :: "hash_func \<Rightarrow> signer" where
  "P256_signer hf = \<lparr> sg_curve_params = P256, sg_curve = Curve P256, sg_hash_func = hf \<rparr>"

definition P256_G_key :: bytes where
  "P256_G_key = be_digits 32 (prm_gx P256) @ be_digits 32 (prm_gy P256)"

definition P256_x43 :: int where
  "P256_x43 = 68940400736695912148960890999721852106142292820061709409680925607912859161229"

definition P256_y43 :: int where
  "P256_y43 = 107423973961867739917642914452788810230878776317276661678353934116262542999"

definition P256_key43 :: bytes where
  "P256_key43 = be_digits 32 P256_x43 @ be_digits 31 P256_y43"

section \<open>Properties of the byte and integer conversions\<close>

lemma from_bytes_snoc: "from_bytes (bs @ [b]) = from_bytes bs * 256 + uint b"
  by (simp add: from_bytes_def)

lemma from_bytes_Nil: "from_bytes [] = 0"
  by (simp add: from_bytes_def)

lemma uint_byte_lt: "uint (b :: byte) < 256"
  using uint_bounded [of b] by simp

lemma from_bytes_bounds: "0 \<le> from_bytes bs \<and> from_bytes bs < 256 ^ length bs"
proof (induction bs rule: rev_induct)
  case Nil
  show ?case by (simp add: from_bytes_Nil)
next
  case (snoc b bs)
  have "uint b < 256" by (rule uint_byte_lt)
  moreover have "0 \<le> uint b" by simp
  moreover have "from_bytes bs + 1 \<le> 256 ^ length bs" using snoc by simp
  then have "(from_bytes bs + 1) * 256 \<le> 256 ^ length bs * 256"
    by (rule mult_right_mono) simp
  ultimately show ?case using snoc by (simp add: from_bytes_snoc algebra_simps)
qed

lemma length_be_digits: "length (be_digits l i) = l"
  by (induction l arbitrary: i) simp_all

lemma from_bytes_be_digits:
  "0 \<le> i \<Longrightarrow> i < 256 ^ l \<Longrightarrow> from_bytes (be_digits l i) = i"
proof (induction l arbitrary: i)
  case 0
  then show ?case by (simp add: from_bytes_Nil)
next
  case (Suc l)
  have d: "0 \<le> i div 256" "i div 256 < 256 ^ l"
    using Suc.prems by (simp_all add: div_less_iff_less_mult pos_imp_zdiv_nonneg_iff mult.commute)
  have u: "uint (word_of_int (i mod 256) :: byte) = i mod 256"
    by (simp add: uint_word_of_int take_bit_eq_mod)
  show ?case
    using Suc.IH [OF d] by (simp add: from_bytes_snoc u)
qed

lemma bit_length_nat_bounds:
  "0 < n \<Longrightarrow> 2 ^ (bit_length_nat n - 1) \<le> n \<and> n < 2 ^ bit_length_nat n"
proof (induction n rule: bit_length_nat.induct)
  case (1 n)
  show ?case
  proof (cases "n div 2 = 0")
    case True
    then have "n = 1" using "1.prems" by presburger
    then show ?thesis by (simp add: bit_length_nat.simps [of "Suc 0"] bit_length_nat.simps [of 0])
  next
    case False
    then have ih: "2 ^ (bit_length_nat (n div 2) - 1) \<le> n div 2" "n div 2 < 2 ^ bit_length_nat (n div 2)"
      using "1.IH" "1.prems" by simp_all
    have pos: "0 < bit_length_nat (n div 2)"
      using False by (simp add: bit_length_nat.simps [of "n div 2"])
    have eq: "bit_length_nat n = Suc (bit_length_nat (n div 2))"
      using "1.prems" by (simp add: bit_length_nat.simps [of n])
    have "2 * 2 ^ (bit_length_nat (n div 2) - 1) \<le> n" using ih(1) by presburger
    moreover have "2 * 2 ^ (bit_length_nat (n div 2) - 1) = (2::nat) ^ bit_length_nat (n div 2)"
      using pos by (cases "bit_length_nat (n div 2)") simp_all
    moreover have "n < 2 * 2 ^ bit_length_nat (n div 2)" using ih(2) by presburger
    ultimately show ?thesis by (simp add: eq)
  qed
qed

lemma bit_length_bounds:
  assumes "0 < q"
  shows "q < 2 ^ nat (bit_length q)" "2 ^ nat (bit_length q) \<le> 2 * q" "0 < bit_length q"
proof -
  let ?n = "nat q"
  have n: "0 < ?n" using assms by simp
  have bl: "bit_length q = int (bit_length_nat ?n)" using assms by (simp add: bit_length_def)
  from bit_length_nat_bounds [OF n]
  have lo: "2 ^ (bit_length_nat ?n - 1) \<le> ?n" and hi: "?n < 2 ^ bit_length_nat ?n" by simp_all
  have pos: "0 < bit_length_nat ?n" using n by (simp add: bit_length_nat.simps [of ?n])
  show "0 < bit_length q" using pos bl by simp
  have "int ?n < int (2 ^ bit_length_nat ?n)" using hi by (simp only: of_nat_less_iff)
  then show "q < 2 ^ nat (bit_length q)" using assms bl by simp
  have "(2::nat) ^ bit_length_nat ?n = 2 * 2 ^ (bit_length_nat ?n - 1)"
    using pos by (cases "bit_length_nat ?n") simp_all
  then have "2 ^ bit_length_nat ?n \<le> 2 * ?n" using lo by simp
  then have "int (2 ^ bit_length_nat ?n) \<le> int (2 * ?n)" by (simp only: of_nat_le_iff)
  then show "2 ^ nat (bit_length q) \<le> 2 * q" using assms bl by simp
qed

lemma int_div_less:
  fixes a b c :: int
  assumes "0 < c" "a < b * c"
  shows "a div c < b"
proof -
  have "a div c * c + a mod c = a" by (rule div_mult_mod_eq)
  moreover have "0 \<le> a mod c" using assms(1) by simp
  ultimately have "a div c * c \<le> a" by linarith
  then have "a div c * c < b * c" using assms(2) by linarith
  then show ?thesis using assms(1) by (simp add: mult_less_cancel_right)
qed

lemma bits2int_bounds: "0 \<le> qlen \<Longrightarrow> 0 \<le> bits2int b qlen \<and> bits2int b qlen < 2 ^ nat qlen"
proof -
  assume q: "0 \<le> qlen"
  let ?i = "from_bytes b" and ?blen = "int (length b) * 8"
  have i: "0 \<le> ?i" "?i < 2 ^ nat ?blen"
  proof -
    show "0 \<le> ?i" using from_bytes_bounds by simp
    have "(256::int) ^ length b = 2 ^ (8 * length b)"
      by (simp add: power_mult)
    moreover have "nat ?blen = 8 * length b" by (simp add: nat_mult_distrib)
    ultimately show "?i < 2 ^ nat ?blen" using from_bytes_bounds [of b] by simp
  qed
  show ?thesis
  proof (cases "?blen > qlen")
    case True
    let ?sh = "nat (?blen - qlen)"
    have e: "nat ?blen = ?sh + nat qlen" using True q by simp
    have "?i < 2 ^ nat qlen * 2 ^ ?sh" using i(2) unfolding e power_add by (simp only: mult.commute)
    then have "?i div 2 ^ ?sh < 2 ^ nat qlen"
      by (intro int_div_less) simp_all
    moreover have "0 \<le> ?i div 2 ^ ?sh" using i(1) by (simp add: pos_imp_zdiv_nonneg_iff)
    ultimately show ?thesis using True by (simp add: bits2int_def Let_def drop_bit_eq_div)
  next
    case False
    then have "nat ?blen \<le> nat qlen" by simp
    then have "(2::int) ^ nat ?blen \<le> 2 ^ nat qlen" by (rule power_increasing) simp
    with i(2) have "?i < 2 ^ nat qlen" by linarith
    then show ?thesis using False i(1) by (simp add: bits2int_def Let_def)
  qed
qed

text \<open>
  Claim C5. For a group order \<open>q > 0\<close> (a prime order in particular) and
  \<open>qlen = bitlen(q)\<close>, \<open>bits2octets(h1, q, qlen)\<close> returns, for every byte string
  \<open>h1\<close>, the big-endian encoding on \<open>rolen = (qlen + 7) // 8\<close> bytes of
  \<open>bits2int(h1, qlen) mod q\<close>: the single conditional subtraction is the full reduction
  and the value fits, so \<open>to_bytes\<close> does not raise. The encoding is given twice, as
  the result of \<open>to_bytes\<close> and as the byte string of that length that reads back as
  the reduced value.
\<close>

theorem bits2octets_reduces:
  assumes q: "0 < q" and qlen: "qlen = bit_length q"
  shows "bits2octets h1 q qlen = to_bytes (bits2int h1 qlen mod q) ((qlen + 7) div 8)
       \<and> (\<exists>bs. bits2octets h1 q qlen = Inr bs
              \<and> int (length bs) = (qlen + 7) div 8
              \<and> from_bytes bs = bits2int h1 qlen mod q)"
proof -
  let ?z1 = "bits2int h1 qlen" and ?rolen = "(qlen + 7) div 8"
  have ql: "0 < qlen" using bit_length_bounds(3) [OF q] qlen by simp
  have z1: "0 \<le> ?z1" "?z1 < 2 ^ nat qlen" using bits2int_bounds [of qlen h1] ql by simp_all
  have two_q: "2 ^ nat qlen \<le> 2 * q" using bit_length_bounds(2) [OF q] qlen by simp
  have qlt: "q < 2 ^ nat qlen" using bit_length_bounds(1) [OF q] qlen by simp
  have red: "(if ?z1 \<ge> q then ?z1 - q else ?z1) = ?z1 mod q"
  proof (cases "?z1 \<ge> q")
    case True
    have "?z1 - q < q" using z1(2) two_q by simp
    moreover have "0 \<le> ?z1 - q" using True by simp
    ultimately have "(?z1 - q) mod q = ?z1 - q" by (simp only: mod_pos_pos_trivial)
    moreover have "(?z1 - q) mod q = ?z1 mod q" by (rule minus_mod_self2)
    ultimately show ?thesis using True by simp
  next
    case False
    then show ?thesis using z1(1) by simp
  qed
  have eq: "bits2octets h1 q qlen = to_bytes (?z1 mod q) ?rolen"
    using red by (simp add: bits2octets_def int2octets_def Let_def)
  have m: "0 \<le> ?z1 mod q" "?z1 mod q < q" using q by simp_all
  have ro: "0 \<le> ?rolen" using ql by simp
  have "nat qlen \<le> 8 * nat ?rolen" using ql by simp
  then have "(2::int) ^ nat qlen \<le> 2 ^ (8 * nat ?rolen)" by (rule power_increasing) simp
  also have "\<dots> = 256 ^ nat ?rolen" by (simp add: power_mult)
  finally have fit: "?z1 mod q < 256 ^ nat ?rolen" using m(2) qlt by simp
  have tb: "to_bytes (?z1 mod q) ?rolen = Inr (be_digits (nat ?rolen) (?z1 mod q))"
    using m(1) fit ro by (simp add: to_bytes_def)
  show ?thesis
    using eq tb ro from_bytes_be_digits [OF m(1) fit]
    by (simp add: length_be_digits)
qed

theorem bits2octets_reduces_witness:
  "(0::int) < 11 \<and> bit_length 11 = 4
   \<and> bits2octets [0xF3] 11 4 = to_bytes (bits2int [0xF3] 4 mod 11) ((4 + 7) div 8)
   \<and> (\<exists>bs. bits2octets [0xF3] 11 4 = Inr bs
          \<and> int (length bs) = (4 + 7) div 8
          \<and> from_bytes bs = bits2int [0xF3] 4 mod 11)"
proof -
  have b: "bit_length 11 = 4"
    by (simp add: bit_length_def bit_length_nat.simps)
  have q: "(0::int) < 11" by simp
  note r = bits2octets_reduces [OF q b [symmetric], of "[0xF3]"]
  show ?thesis
    by (intro conjI) (rule q, rule b, rule conjunct1 [OF r], rule conjunct2 [OF r])
qed

section \<open>Properties of modinv on arguments without an inverse\<close>

lemma modinv_multiple:
  assumes "a \<noteq> 0" "m \<noteq> 0" "a mod m = 0"
  shows "modinv a m = Inr (1 mod m)"
  using assms by (simp add: modinv_def modinv_loop.simps [of 1 0 0 m])

text \<open>
  Claim C4 says that \<open>modinv(a, m)\<close> fails for every multiple \<open>a\<close> of \<open>m\<close> and never
  returns a value when \<open>a\<close> has no inverse modulo \<open>m\<close>. The source tests \<open>a == 0\<close>
  before it reduces \<open>a\<close>, and never looks at the last remainder: on the non-zero
  multiples \<open>7\<close> and \<open>14\<close> of \<open>7\<close> it returns \<open>1\<close>, on \<open>modinv(2, 4)\<close> and
  \<open>modinv(6, 9)\<close>, where the greatest common divisor is \<open>2\<close> and \<open>3\<close>, it returns
  \<open>2\<close> and \<open>3\<close>; only the literal \<open>0\<close> raises.
\<close>

theorem modinv_returns_without_inverse:
  "modinv 7 7 = Inr 1 \<and> modinv 14 7 = Inr 1 \<and> modinv 2 4 = Inr 2 \<and> modinv 6 9 = Inr 3
   \<and> modinv 0 7 = Inl ValueError"
  by (simp add: modinv_def modinv_loop.simps)

section \<open>Properties of point addition and scalar multiplication\<close>

lemma scalar_mult_zero_mod:
  "curve_n c \<noteq> 0 \<Longrightarrow> k mod curve_n c = 0 \<Longrightarrow> scalar_mult c k P = Some (Inr None)"
  by (simp add: scalar_mult_def Let_def)

lemma point_add_None_left: "point_add c None Q = Inr Q"
  by (simp add: point_add_def)

lemma point_add_infinite_left: "is_infinite P \<Longrightarrow> point_add c (Some P) Q = Inr Q"
  by (simp add: point_add_def)

lemma point_add_negate:
  assumes "curve_p c \<noteq> 0" "(py + qy) mod curve_p c = 0"
  shows "point_add c (Some (Point (Some px) (Some py))) (Some (Point (Some px) (Some qy)))
         = Inr None"
  using assms by (simp add: point_add_def is_infinite_def)

lemma point_add_double_returns:
  assumes "curve_p c \<noteq> 0" "py \<noteq> 0"
  shows "\<exists>R. point_add c (Some (Point (Some px) (Some py))) (Some (Point (Some px) (Some py)))
             = Inr R"
  using assms by (simp add: point_add_def is_infinite_def modinv_def Let_def)

lemma scalar_mult_one:
  assumes "curve_n c \<noteq> 0" "1 mod curve_n c \<noteq> 0" "point_add c (Some P) (Some P) = Inr R"
  shows "scalar_mult c 1 (Some P) = Some (Inr (Some P))"
proof -
  have "scalar_mult_loop c 1 None (Some P) = scalar_mult_loop c 0 (Some P) R"
    by (subst scalar_mult_loop.simps) (simp add: point_add_None_left assms)
  also have "\<dots> = Some (Inr (Some P))"
    by (subst scalar_mult_loop.simps) simp
  finally show ?thesis using assms by (simp add: scalar_mult_def)
qed

lemma P256_fields:
  "curve_p (Curve P256) = prm_p P256" "curve_n (Curve P256) = prm_n P256"
  "curve_g (Curve P256) = Point (Some (prm_gx P256)) (Some (prm_gy P256))"
  by (simp_all add: Curve_def)

lemma P256_bounds:
  "0 < prm_p P256" "1 < prm_n P256" "0 < prm_gy P256" "prm_gy P256 < prm_p P256"
  by (simp_all add: P256_def)

text \<open>
  Claim C7. On the curve P-256, with generator \<open>G\<close>, modulus \<open>p\<close> and order \<open>n\<close>:
  adding \<open>G\<close> to the point at infinity (as \<open>None\<close> or as a \<open>Point\<close> without
  coordinates) returns \<open>G\<close>; adding \<open>G\<close> and its negation \<open>(gx, p - gy)\<close> returns
  infinity; \<open>scalar_mult(n, G)\<close> returns infinity and \<open>scalar_mult(1, G)\<close> returns
  \<open>G\<close>, with the point given or defaulted; and \<open>scalar_mult(k, P)\<close> returns infinity for
  every \<open>k\<close> that is \<open>0\<close> modulo \<open>n\<close> and every \<open>P\<close>.
\<close>

theorem P256_point_identities:
  "point_add (Curve P256) None (Some (curve_g (Curve P256))) = Inr (Some (curve_g (Curve P256)))
   \<and> point_add (Curve P256) (Some (Point None None)) (Some (curve_g (Curve P256)))
       = Inr (Some (curve_g (Curve P256)))
   \<and> point_add (Curve P256) (Some (curve_g (Curve P256)))
         (Some (Point (Some (prm_gx P256)) (Some (prm_p P256 - prm_gy P256)))) = Inr None
   \<and> scalar_mult (Curve P256) (prm_n P256) (Some (curve_g (Curve P256))) = Some (Inr None)
   \<and> scalar_mult (Curve P256) (prm_n P256) None = Some (Inr None)
   \<and> scalar_mult (Curve P256) 1 (Some (curve_g (Curve P256)))
       = Some (Inr (Some (curve_g (Curve P256))))
   \<and> scalar_mult (Curve P256) 1 None = Some (Inr (Some (curve_g (Curve P256))))
   \<and> (\<forall>k P. k mod prm_n P256 = 0 \<longrightarrow> scalar_mult (Curve P256) k P = Some (Inr None))"
proof -
  let ?c = "Curve P256" and ?G = "curve_g (Curve P256)"
  have n0: "curve_n ?c \<noteq> 0" and p0: "curve_p ?c \<noteq> 0"
    using P256_bounds by (simp_all add: P256_fields)
  have one: "1 mod curve_n ?c \<noteq> 0"
    using P256_bounds(2) by (simp add: P256_fields(2))
  have neg: "(prm_gy P256 + (prm_p P256 - prm_gy P256)) mod curve_p ?c = 0"
    by (simp add: P256_fields(1))
  have gy0: "prm_gy P256 \<noteq> 0" using P256_bounds(3) by simp
  obtain R where R: "point_add ?c (Some ?G) (Some ?G) = Inr R"
    unfolding P256_fields(3) using point_add_double_returns [OF p0 gy0] by blast
  have a1: "point_add ?c None (Some ?G) = Inr (Some ?G)"
    by (rule point_add_None_left)
  have a2: "point_add ?c (Some (Point None None)) (Some ?G) = Inr (Some ?G)"
    by (rule point_add_infinite_left) (simp add: is_infinite_def)
  have a3: "point_add ?c (Some ?G)
      (Some (Point (Some (prm_gx P256)) (Some (prm_p P256 - prm_gy P256)))) = Inr None"
    unfolding P256_fields(3) by (rule point_add_negate [OF p0 neg])
  have a4: "scalar_mult ?c (prm_n P256) (Some ?G) = Some (Inr None)"
    by (rule scalar_mult_zero_mod [OF n0]) (simp add: P256_fields(2))
  have a5: "scalar_mult ?c (prm_n P256) None = Some (Inr None)"
    by (rule scalar_mult_zero_mod [OF n0]) (simp add: P256_fields(2))
  have a6: "scalar_mult ?c 1 (Some ?G) = Some (Inr (Some ?G))"
    by (rule scalar_mult_one [OF n0 one R])
  have "scalar_mult ?c 1 None = scalar_mult ?c 1 (Some ?G)"
    by (simp add: scalar_mult_def)
  with a6 have a7: "scalar_mult ?c 1 None = Some (Inr (Some ?G))" by simp
  have a8: "\<forall>k P. k mod prm_n P256 = 0 \<longrightarrow> scalar_mult ?c k P = Some (Inr None)"
    using scalar_mult_zero_mod [OF n0] by (simp add: P256_fields(2))
  show ?thesis
    by (intro conjI) (rule a1, rule a2, rule a3, rule a4, rule a5, rule a6, rule a7, rule a8)
qed

theorem P256_point_identities_witness:
  "(2 * prm_n P256) mod prm_n P256 = 0
   \<and> scalar_mult (Curve P256) (2 * prm_n P256) (Some (curve_g (Curve P256))) = Some (Inr None)"
proof -
  have m: "(2 * prm_n P256) mod prm_n P256 = 0" by simp
  from P256_point_identities have
    a: "\<forall>k P. k mod prm_n P256 = 0 \<longrightarrow> scalar_mult (Curve P256) k P = Some (Inr None)"
    by (elim conjE)
  have "scalar_mult (Curve P256) (2 * prm_n P256) (Some (curve_g (Curve P256)))
      = Some (Inr None)"
    by (rule a [rule_format, OF m])
  with m show ?thesis by (rule conjI)
qed

section \<open>Correctness of modinv\<close>

lemma modinv_loop_invariant:
  "m dvd (lm * a - low) \<Longrightarrow> m dvd (hm * a - high) \<Longrightarrow> 0 \<le> low \<Longrightarrow>
   gcd low high = 1 \<Longrightarrow> 1 < high \<Longrightarrow> m dvd (modinv_loop lm hm low high * a - 1)"
proof (induction lm hm low high rule: modinv_loop.induct)
  case (1 lm hm low high)
  show ?case
  proof (cases "1 < low")
    case True
    let ?r = "high div low"
    let ?nm = "hm - lm * ?r" and ?new = "high - low * ?r"
    have new: "?new = high mod low" by (simp add: minus_mult_div_eq_mod)
    have eq: "?nm * a - ?new = (hm * a - high) - ?r * (lm * a - low)"
      by (simp add: algebra_simps)
    have d1: "m dvd (?nm * a - ?new)"
      unfolding eq by (intro dvd_diff dvd_mult "1.prems"(1,2))
    have g: "gcd ?new low = 1"
      unfolding new using "1.prems"(4) by (metis gcd.commute gcd_red_int)
    have n0: "0 \<le> ?new" unfolding new using True by simp
    have "m dvd (modinv_loop ?nm lm ?new low * a - 1)"
      by (rule "1.IH" [OF True refl refl refl d1 "1.prems"(1) n0 g True])
    then show ?thesis
      using True by (subst modinv_loop.simps) (simp add: Let_def)
  next
    case False
    have "low \<noteq> 0"
    proof
      assume "low = 0"
      then have "gcd low high = high" using "1.prems"(5) by simp
      then show False using "1.prems"(4,5) by simp
    qed
    then have "low = 1" using False "1.prems"(3) by simp
    then show ?thesis
      using "1.prems"(1) by (subst modinv_loop.simps) simp
  qed
qed

lemma modinv_correct:
  assumes m: "1 < m" and cop: "coprime a m"
  shows "\<exists>r. modinv a m = Inr r \<and> 0 \<le> r \<and> r < m \<and> (a * r) mod m = 1"
proof -
  have a0: "a \<noteq> 0"
  proof
    assume "a = 0"
    then have "gcd a m = m" using m by simp
    then show False using cop m by simp
  qed
  let ?l = "modinv_loop 1 0 (a mod m) m"
  have d1: "m dvd (1 * a - a mod m)" by (simp add: minus_mod_eq_mult_div)
  have d2: "m dvd (0 * a - m)" by simp
  have g: "gcd (a mod m) m = 1" using cop by (metis coprime_iff_gcd_eq_1 gcd.commute gcd_red_int)
  have "m dvd (?l * a - 1)"
    by (rule modinv_loop_invariant [OF d1 d2 _ g m]) (use m in simp)
  then have "(?l * a - 1) mod m = 0" by (simp add: mod_eq_0_iff_dvd)
  then have "(?l * a) mod m = 1 mod m"
    by (metis diff_add_cancel mod_add_left_eq add_0)
  then have "(a * (?l mod m)) mod m = 1"
    using m by (simp add: mod_mult_right_eq mult.commute)
  moreover have "modinv a m = Inr (?l mod m)" using a0 m by (simp add: modinv_def)
  moreover have "0 \<le> ?l mod m" "?l mod m < m" using m by simp_all
  ultimately show ?thesis by blast
qed

section \<open>Prime moduli\<close>

lemma is_prime_gt1: "is_prime p \<Longrightarrow> 1 < p"
  by (simp add: is_prime_def)

lemma is_prime_divisors:
  assumes "is_prime p" "d dvd p" "0 \<le> d"
  shows "d = 1 \<or> d = p"
proof -
  have p: "1 < p" using assms(1) by (rule is_prime_gt1)
  have "d \<noteq> 0" using assms(2) p by auto
  then have d: "0 < d" using assms(3) by simp
  have "d \<le> p" using assms(2) p by (simp add: zdvd_imp_le)
  show ?thesis
  proof (rule ccontr)
    assume "\<not> (d = 1 \<or> d = p)"
    then have "2 \<le> d" "d \<le> p - 1" using d \<open>d \<le> p\<close> by auto
    then have "d \<in> set [2 .. p - 1]" by simp
    then show False using assms(1,2) by (auto simp: is_prime_def)
  qed
qed

lemma is_prime_coprime:
  assumes "is_prime p" "\<not> p dvd a"
  shows "coprime a p"
proof -
  have "gcd a p dvd p" "0 \<le> gcd a p" by simp_all
  then have "gcd a p = 1 \<or> gcd a p = p" using is_prime_divisors [OF assms(1)] by blast
  moreover have "gcd a p \<noteq> p"
  proof
    assume "gcd a p = p"
    then have "p dvd a" by (metis gcd_dvd1)
    then show False using assms(2) by simp
  qed
  ultimately show ?thesis by (simp add: coprime_iff_gcd_eq_1)
qed

lemma is_prime_dvd_mult:
  assumes "is_prime p" "p dvd a * b"
  shows "p dvd a \<or> p dvd b"
proof (cases "p dvd a")
  case True then show ?thesis by simp
next
  case False
  then have "coprime p a" using is_prime_coprime [OF assms(1)] by (simp add: coprime_commute)
  then show ?thesis using assms(2) by (simp add: coprime_dvd_mult_right_iff)
qed

lemma dvd_small_int:
  fixes p d :: int
  assumes "p dvd d" "\<bar>d\<bar> < p"
  shows "d = 0"
  using assms by (meson dvd_abs_iff order.strict_iff_not zdvd_imp_le zero_less_abs_iff)

lemma chord_identity:
  fixes x1 y1 x2 y2 a b M i X Y :: int
  defines "E1 \<equiv> y1\<^sup>2 - (x1 ^ 3 + a * x1 + b)"
    and "E2 \<equiv> y2\<^sup>2 - (x2 ^ 3 + a * x2 + b)"
    and "u \<equiv> (x2 - x1) * i - 1"
    and "v \<equiv> M * (x2 - x1) - (y2 - y1)"
    and "X0 \<equiv> M * M - x1 - x2"
    and "Y0 \<equiv> M * (x1 - X) - y1"
  shows "Y\<^sup>2 - (X ^ 3 + a * X + b) =
      (Y - Y0) * (Y + Y0) + (- ((X - x1) * (X - x2))) * (X - X0) + E1
      + (E2 + 2 * y2 * v + v * v - E1) * (i * (X - x1))
      + ((a + 2 * M * M * x1 - 2 * M * y1 - (x1 * x2 + x1 * X0 + x2 * X0)) * (X - x1)) * u"
  unfolding E1_def E2_def u_def v_def X0_def Y0_def by algebra

lemma tangent_identity:
  fixes x1 y1 a b M X Y :: int
  defines "E1 \<equiv> y1\<^sup>2 - (x1 ^ 3 + a * x1 + b)"
    and "v \<equiv> M * (2 * y1) - (3 * x1 * x1 + a)"
    and "X0 \<equiv> M * M - x1 - x1"
    and "Y0 \<equiv> M * (x1 - X) - y1"
  shows "Y\<^sup>2 - (X ^ 3 + a * X + b) =
      (Y - Y0) * (Y + Y0) + (- ((X - x1) * (X - x1))) * (X - X0) + v * (X - x1) + E1"
  unfolding E1_def v_def X0_def Y0_def by algebra

section \<open>Closure of point addition\<close>

lemma on_curve_infinity: "infinity P \<Longrightarrow> on_curve c P"
  by (simp add: on_curve_def is_on_curve_def infinity_def)

lemma reduced_infinity: "infinity P \<Longrightarrow> reduced c P"
  by (simp add: reduced_def)

lemma on_curve_finite:
  "curve_p c \<noteq> 0 \<Longrightarrow>
   on_curve c (Some (Point (Some x) (Some y)))
     \<longleftrightarrow> curve_p c dvd (y\<^sup>2 - (x ^ 3 + curve_a c * x + curve_b c))"
  by (simp add: on_curve_def is_on_curve_def is_infinite_def mod_eq_0_iff_dvd)

lemma reduced_finite:
  "reduced c (Some (Point (Some x) (Some y)))
     \<longleftrightarrow> 0 \<le> x \<and> x < curve_p c \<and> 0 \<le> y \<and> y < curve_p c"
  by (simp add: reduced_def infinity_def is_infinite_def)

lemma finite_point_cases:
  assumes "\<not> infinity P"
  obtains x y where "P = Some (Point (Some x) (Some y))"
proof -
  from assms obtain pt where P: "P = Some pt" and ni: "\<not> is_infinite pt"
    by (cases P) (auto simp: infinity_def)
  obtain ox oy where pt: "pt = Point ox oy" by (cases pt)
  from ni pt obtain x y where "ox = Some x" "oy = Some y"
    by (auto simp: is_infinite_def)
  with P pt that show thesis by simp
qed

lemma point_add_finite:
  "point_add c (Some (Point (Some x1) (Some y1))) (Some (Point (Some x2) (Some y2))) =
     (if x1 = x2 \<and> curve_p c = 0 then Inl ZeroDivisionError
      else if x1 = x2 \<and> (y1 + y2) mod curve_p c = 0 then Inr None
      else
        (case (if x1 = x2 then modinv (2 * y1) (curve_p c)
               else modinv (x2 - x1) (curve_p c)) of
           Inl e \<Rightarrow> Inl e
         | Inr i \<Rightarrow>
             (let m = (if x1 = x2 then (3 * x1 * x1 + curve_a c) * i mod curve_p c
                       else (y2 - y1) * i mod curve_p c);
                  xr = (m * m - x1 - x2) mod curve_p c;
                  yr = (m * (x1 - xr) - y1) mod curve_p c
              in Inr (Some (Point (Some xr) (Some yr))))))"
  by (simp add: point_add_def is_infinite_def)

lemma point_add_infinity_left: "infinity P \<Longrightarrow> point_add c P Q = Inr Q"
  by (auto simp: point_add_def infinity_def)

lemma point_add_infinity_right: "\<not> infinity P \<Longrightarrow> infinity Q \<Longrightarrow> point_add c P Q = Inr P"
  by (auto simp: point_add_def infinity_def)

lemma modinv_inverse:
  assumes "1 < m" "coprime a m"
  obtains i where "modinv a m = Inr i" "0 \<le> i" "i < m" "m dvd (a * i - 1)"
proof -
  from modinv_correct [OF assms] obtain i where
    i: "modinv a m = Inr i" "0 \<le> i" "i < m" "(a * i) mod m = 1" by blast
  have "m dvd (a * i - (a * i) mod m)" by (rule dvd_minus_mod)
  then have "m dvd (a * i - 1)" using i(4) by simp
  with i that show thesis by blast
qed

lemma slope_times_denominator:
  fixes p :: int
  assumes "p dvd (d * i - 1)"
  shows "p dvd ((n * i) mod p * d - n)"
proof -
  have "p dvd ((n * i) mod p - n * i)"
    by (metis dvd_minus_mod dvd_minus_iff minus_diff_eq)
  then have "p dvd ((n * i) mod p - n * i) * d" by (rule dvd_mult2)
  moreover have "p dvd n * (d * i - 1)" using assms by (rule dvd_mult)
  ultimately have "p dvd ((n * i) mod p - n * i) * d + n * (d * i - 1)" by (rule dvd_add)
  moreover have "((n * i) mod p - n * i) * d + n * (d * i - 1) = (n * i) mod p * d - n"
    by (simp add: algebra_simps)
  ultimately show ?thesis by simp
qed

lemma dvd_mod_diff: "(p::int) dvd (a mod p - a)"
  by (metis dvd_minus_mod dvd_minus_iff minus_diff_eq)

lemma chord_closed:
  fixes p :: int
  assumes E1: "p dvd (y1\<^sup>2 - (x1 ^ 3 + a * x1 + b))"
    and E2: "p dvd (y2\<^sup>2 - (x2 ^ 3 + a * x2 + b))"
    and u: "p dvd ((x2 - x1) * i - 1)"
  defines "M \<equiv> (y2 - y1) * i mod p"
  defines "X \<equiv> (M * M - x1 - x2) mod p"
  defines "Y \<equiv> (M * (x1 - X) - y1) mod p"
  shows "p dvd (Y\<^sup>2 - (X ^ 3 + a * X + b))"
proof -
  have v: "p dvd (M * (x2 - x1) - (y2 - y1))"
    unfolding M_def by (rule slope_times_denominator [OF u])
  have dX: "p dvd (X - (M * M - x1 - x2))" unfolding X_def by (rule dvd_mod_diff)
  have dY: "p dvd (Y - (M * (x1 - X) - y1))" unfolding Y_def by (rule dvd_mod_diff)
  show ?thesis
    unfolding chord_identity [of Y X a b M x1 y1 x2 y2 i]
    by (intro dvd_add dvd_mult dvd_mult2 dvd_diff E1 E2 u v dX dY)
qed

lemma tangent_closed:
  fixes p :: int
  assumes E1: "p dvd (y1\<^sup>2 - (x1 ^ 3 + a * x1 + b))"
    and u: "p dvd ((2 * y1) * i - 1)"
  defines "M \<equiv> (3 * x1 * x1 + a) * i mod p"
  defines "X \<equiv> (M * M - x1 - x1) mod p"
  defines "Y \<equiv> (M * (x1 - X) - y1) mod p"
  shows "p dvd (Y\<^sup>2 - (X ^ 3 + a * X + b))"
proof -
  have v: "p dvd (M * (2 * y1) - (3 * x1 * x1 + a))"
    unfolding M_def by (rule slope_times_denominator [OF u])
  have dX: "p dvd (X - (M * M - x1 - x1))" unfolding X_def by (rule dvd_mod_diff)
  have dY: "p dvd (Y - (M * (x1 - X) - y1))" unfolding Y_def by (rule dvd_mod_diff)
  show ?thesis
    unfolding tangent_identity [of Y X a b M x1 y1]
    by (intro dvd_add dvd_mult dvd_mult2 dvd_diff E1 u v dX dY)
qed

lemma same_abscissa:
  fixes p :: int
  assumes pr: "is_prime p"
    and E1: "p dvd (y1\<^sup>2 - (x ^ 3 + a * x + b))"
    and E2: "p dvd (y2\<^sup>2 - (x ^ 3 + a * x + b))"
    and r1: "0 \<le> y1" "y1 < p" and r2: "0 \<le> y2" "y2 < p"
  shows "y1 = y2 \<or> (y1 + y2) mod p = 0"
proof -
  have "p dvd ((y1\<^sup>2 - (x ^ 3 + a * x + b)) - (y2\<^sup>2 - (x ^ 3 + a * x + b)))"
    using E1 E2 by (rule dvd_diff)
  moreover have "(y1\<^sup>2 - (x ^ 3 + a * x + b)) - (y2\<^sup>2 - (x ^ 3 + a * x + b))
      = (y1 - y2) * (y1 + y2)"
    by (simp add: algebra_simps power2_eq_square)
  ultimately have "p dvd (y1 - y2) * (y1 + y2)" by simp
  then have "p dvd (y1 - y2) \<or> p dvd (y1 + y2)" by (rule is_prime_dvd_mult [OF pr])
  then show ?thesis
  proof
    assume d: "p dvd (y1 - y2)"
    have "\<bar>y1 - y2\<bar> < p" using r1 r2 by simp
    with d have "y1 - y2 = 0" by (rule dvd_small_int)
    then show ?thesis by simp
  next
    assume "p dvd (y1 + y2)"
    then show ?thesis by (simp add: mod_eq_0_iff_dvd)
  qed
qed

lemma coprime_double:
  fixes p :: int
  assumes pr: "is_prime p" and odd: "p \<noteq> 2" and y: "0 < y" "y < p"
  shows "coprime (2 * y) p"
proof (rule is_prime_coprime [OF pr])
  show "\<not> p dvd 2 * y"
  proof
    assume "p dvd 2 * y"
    then have "p dvd 2 \<or> p dvd y" by (rule is_prime_dvd_mult [OF pr])
    then show False
    proof
      assume "p dvd 2"
      then have "p \<le> 2" by (simp add: zdvd_imp_le)
      then show False using odd is_prime_gt1 [OF pr] by simp
    next
      assume "p dvd y"
      then have "p \<le> y" using y(1) by (simp add: zdvd_imp_le)
      then show False using y(2) by simp
    qed
  qed
qed

lemma coprime_difference:
  fixes p :: int
  assumes pr: "is_prime p" and x1: "0 \<le> x1" "x1 < p" and x2: "0 \<le> x2" "x2 < p"
    and ne: "x1 \<noteq> x2"
  shows "coprime (x2 - x1) p"
proof (rule is_prime_coprime [OF pr])
  show "\<not> p dvd x2 - x1"
  proof
    assume d: "p dvd x2 - x1"
    have "\<bar>x2 - x1\<bar> < p" using x1 x2 by simp
    with d have "x2 - x1 = 0" by (rule dvd_small_int)
    then show False using ne by simp
  qed
qed

lemma point_add_finite_closed:
  assumes pr: "is_prime (curve_p c)" and odd: "curve_p c \<noteq> 2"
    and oP: "on_curve c (Some (Point (Some x1) (Some y1)))"
    and rP: "reduced c (Some (Point (Some x1) (Some y1)))"
    and oQ: "on_curve c (Some (Point (Some x2) (Some y2)))"
    and rQ: "reduced c (Some (Point (Some x2) (Some y2)))"
  shows "\<exists>R. point_add c (Some (Point (Some x1) (Some y1))) (Some (Point (Some x2) (Some y2)))
             = Inr R \<and> on_curve c R \<and> reduced c R"
proof -
  let ?p = "curve_p c" and ?a = "curve_a c" and ?b = "curve_b c"
  have p1: "1 < ?p" using pr by (rule is_prime_gt1)
  then have p0: "?p \<noteq> 0" by simp
  have E1: "?p dvd (y1\<^sup>2 - (x1 ^ 3 + ?a * x1 + ?b))" using oP on_curve_finite [OF p0] by simp
  have E2: "?p dvd (y2\<^sup>2 - (x2 ^ 3 + ?a * x2 + ?b))" using oQ on_curve_finite [OF p0] by simp
  have r1: "0 \<le> x1" "x1 < ?p" "0 \<le> y1" "y1 < ?p" using rP by (simp_all add: reduced_finite)
  have r2: "0 \<le> x2" "x2 < ?p" "0 \<le> y2" "y2 < ?p" using rQ by (simp_all add: reduced_finite)
  show ?thesis
  proof (cases "x1 = x2")
    case True
    show ?thesis
    proof (cases "(y1 + y2) mod ?p = 0")
      case z: True
      then have "point_add c (Some (Point (Some x1) (Some y1))) (Some (Point (Some x2) (Some y2)))
          = Inr None"
        using True p0 by (simp add: point_add_finite)
      moreover have "infinity None" by (simp add: infinity_def)
      ultimately show ?thesis using on_curve_infinity reduced_infinity by blast
    next
      case nz: False
      have yy: "y1 = y2"
        using same_abscissa [OF pr E1 E2 [folded True] r1(3,4) r2(3,4)] nz by simp
      have "y1 \<noteq> 0" using nz yy by auto
      then have ypos: "0 < y1" using r1(3) by simp
      have cop: "coprime (2 * y1) ?p" by (rule coprime_double [OF pr odd ypos r1(4)])
      from modinv_inverse [OF p1 cop] obtain i where
        i: "modinv (2 * y1) ?p = Inr i" and u: "?p dvd (2 * y1 * i - 1)" by blast
      define M where "M = (3 * x1 * x1 + ?a) * i mod ?p"
      define X where "X = (M * M - x1 - x1) mod ?p"
      define Y where "Y = (M * (x1 - X) - y1) mod ?p"
      have res: "point_add c (Some (Point (Some x1) (Some y1))) (Some (Point (Some x2) (Some y2)))
          = Inr (Some (Point (Some X) (Some Y)))"
        using True nz p0 i by (simp add: point_add_finite Let_def M_def X_def Y_def)
      have "?p dvd (Y\<^sup>2 - (X ^ 3 + ?a * X + ?b))"
        unfolding Y_def X_def M_def by (rule tangent_closed [OF E1 u])
      then have oc: "on_curve c (Some (Point (Some X) (Some Y)))"
        by (simp add: on_curve_finite [OF p0])
      have rd: "reduced c (Some (Point (Some X) (Some Y)))"
        using p1 by (simp add: reduced_finite X_def Y_def)
      show ?thesis using res oc rd by blast
    qed
  next
    case False
    have cop: "coprime (x2 - x1) ?p"
      by (rule coprime_difference [OF pr r1(1,2) r2(1,2) False])
    from modinv_inverse [OF p1 cop] obtain i where
      i: "modinv (x2 - x1) ?p = Inr i" and u: "?p dvd ((x2 - x1) * i - 1)" by blast
    define M where "M = (y2 - y1) * i mod ?p"
    define X where "X = (M * M - x1 - x2) mod ?p"
    define Y where "Y = (M * (x1 - X) - y1) mod ?p"
    have res: "point_add c (Some (Point (Some x1) (Some y1))) (Some (Point (Some x2) (Some y2)))
        = Inr (Some (Point (Some X) (Some Y)))"
      using False i by (simp add: point_add_finite Let_def M_def X_def Y_def)
    have "?p dvd (Y\<^sup>2 - (X ^ 3 + ?a * X + ?b))"
      unfolding Y_def X_def M_def by (rule chord_closed [OF E1 E2 u])
    then have oc: "on_curve c (Some (Point (Some X) (Some Y)))"
      by (simp add: on_curve_finite [OF p0])
    have rd: "reduced c (Some (Point (Some X) (Some Y)))"
      using p1 by (simp add: reduced_finite X_def Y_def)
    show ?thesis using res oc rd by blast
  qed
qed

lemma point_add_closed:
  assumes pr: "is_prime (curve_p c)" and odd: "curve_p c \<noteq> 2"
    and oP: "on_curve c P" and rP: "reduced c P"
    and oQ: "on_curve c Q" and rQ: "reduced c Q"
  shows "\<exists>R. point_add c P Q = Inr R \<and> on_curve c R \<and> reduced c R"
proof (cases "infinity P")
  case True
  then show ?thesis using oQ rQ by (simp add: point_add_infinity_left)
next
  case nP: False
  show ?thesis
  proof (cases "infinity Q")
    case True
    then show ?thesis using nP oP rP by (simp add: point_add_infinity_right)
  next
    case nQ: False
    from nP obtain x1 y1 where P: "P = Some (Point (Some x1) (Some y1))"
      by (rule finite_point_cases)
    from nQ obtain x2 y2 where Q: "Q = Some (Point (Some x2) (Some y2))"
      by (rule finite_point_cases)
    show ?thesis
      using point_add_finite_closed [OF pr odd] oP rP oQ rQ unfolding P Q by blast
  qed
qed

lemma drop_bit_1_int: "drop_bit 1 (k::int) = k div 2"
  by (simp add: drop_bit_eq_div)

lemma scalar_mult_loop_returns:
  assumes pr: "is_prime (curve_p c)" and odd: "curve_p c \<noteq> 2"
  shows "0 \<le> k \<Longrightarrow> group_point c result \<Longrightarrow> group_point c addend \<Longrightarrow>
         \<exists>R. scalar_mult_loop c k result addend = Some (Inr R) \<and> group_point c R"
proof (induction "nat k" arbitrary: k result addend rule: less_induct)
  case less
  show ?case
  proof (cases "k = 0")
    case True
    then show ?thesis using less.prems(2) by (subst scalar_mult_loop.simps) simp
  next
    case False
    obtain r' where r': "(if k AND 1 \<noteq> 0 then point_add c result addend else Inr result) = Inr r'"
      and gr: "group_point c r'"
      using point_add_closed [OF pr odd, of result addend] less.prems(2,3)
      by (cases "k AND 1 \<noteq> 0") (auto simp: group_point_def)
    obtain a' where a': "point_add c addend addend = Inr a'" and ga: "group_point c a'"
      using point_add_closed [OF pr odd, of addend addend] less.prems(3)
      by (auto simp: group_point_def)
    have k: "0 \<le> k div 2" "nat (k div 2) < nat k" using less.prems(1) False by simp_all
    from less.hyps [OF k(2) k(1) gr ga] obtain R where
      "scalar_mult_loop c (k div 2) r' a' = Some (Inr R)" "group_point c R" by blast
    then show ?thesis
      using False r' a' by (subst scalar_mult_loop.simps) (simp add: drop_bit_eq_div)
  qed
qed

lemma scalar_mult_loop_invariant:
  assumes run: "scalar_mult_loop c k result addend = Some (Inr R)"
    and pr: "is_prime (curve_p c)" and odd: "curve_p c \<noteq> 2"
    and gr: "group_point c result" and ga: "group_point c addend"
  shows "group_point c R"
proof -
  note r = scalar_mult_loop.raw_induct
      [where P = "\<lambda>c k result addend y. is_prime (curve_p c) \<longrightarrow> curve_p c \<noteq> 2 \<longrightarrow>
          group_point c result \<longrightarrow> group_point c addend \<longrightarrow> (\<forall>R. y = Inr R \<longrightarrow> group_point c R)",
        OF _ run]
  have "is_prime (curve_p c) \<longrightarrow> curve_p c \<noteq> 2 \<longrightarrow> group_point c result \<longrightarrow>
        group_point c addend \<longrightarrow> (\<forall>R'. (Inr R :: error + point option) = Inr R' \<longrightarrow> group_point c R')"
  proof (rule r)
    fix loop c k result addend y
    assume IH: "\<And>c k result addend y. loop c k result addend = Some y \<Longrightarrow>
        is_prime (curve_p c) \<longrightarrow> curve_p c \<noteq> 2 \<longrightarrow> group_point c result \<longrightarrow>
        group_point c addend \<longrightarrow> (\<forall>R. y = Inr R \<longrightarrow> group_point c R)"
      and body: "(if k = 0 then Some (Inr result)
          else case if k AND 1 \<noteq> 0 then point_add c result addend else Inr result of
                 Inl e \<Rightarrow> Some (Inl e)
               | Inr result' \<Rightarrow>
                   (case point_add c addend addend of
                      Inl e \<Rightarrow> Some (Inl e)
                    | Inr addend' \<Rightarrow> loop c (drop_bit 1 k) result' addend')) = Some y"
    show "is_prime (curve_p c) \<longrightarrow> curve_p c \<noteq> 2 \<longrightarrow> group_point c result \<longrightarrow>
        group_point c addend \<longrightarrow> (\<forall>R. y = Inr R \<longrightarrow> group_point c R)"
    proof (intro impI allI)
      fix R
      assume pr: "is_prime (curve_p c)" and odd: "curve_p c \<noteq> 2"
        and gr: "group_point c result" and ga: "group_point c addend" and y: "y = Inr R"
      show "group_point c R"
      proof (cases "k = 0")
        case True
        then show ?thesis using body gr y by simp
      next
        case False
        obtain r' where
          r': "(if k AND 1 \<noteq> 0 then point_add c result addend else Inr result) = Inr r'"
          and gr': "group_point c r'"
          using point_add_closed [OF pr odd, of result addend] gr ga
          by (cases "k AND 1 \<noteq> 0") (auto simp: group_point_def)
        obtain a' where a': "point_add c addend addend = Inr a'" and ga': "group_point c a'"
          using point_add_closed [OF pr odd, of addend addend] ga
          by (auto simp: group_point_def)
        have "loop c (drop_bit 1 k) r' a' = Some y"
          using body False r' a' by simp
        from IH [OF this] show ?thesis using pr odd gr' ga' y by blast
      qed
    qed
  qed
  then show ?thesis using pr odd gr ga by blast
qed

lemma scalar_mult_start:
  assumes "group_point c P" "P = None \<longrightarrow> group_point c (Some (curve_g c))"
  shows "group_point c (if P = None then Some (curve_g c) else P)"
  using assms by simp

lemma group_point_None: "group_point c None"
  by (simp add: group_point_def on_curve_infinity reduced_infinity infinity_def)

lemma scalar_mult_produces_group_point:
  assumes pr: "is_prime (curve_p c)" and odd: "curve_p c \<noteq> 2"
    and P: "group_point c P" and G: "P = None \<longrightarrow> group_point c (Some (curve_g c))"
    and run: "scalar_mult c k P = Some (Inr R)"
  shows "group_point c R"
proof -
  let ?p = "if P = None then Some (curve_g c) else P"
  have st: "group_point c ?p" using P G by simp
  show ?thesis
  proof (cases "curve_n c = 0 \<or> k mod curve_n c = 0")
    case True
    then have "R = None" using run by (auto simp: scalar_mult_def Let_def split: if_splits)
    then show ?thesis by (simp add: group_point_None)
  next
    case False
    then have "scalar_mult_loop c k None ?p = Some (Inr R)"
      using run by (auto simp: scalar_mult_def Let_def split: if_splits)
    then show ?thesis
      by (rule scalar_mult_loop_invariant [OF _ pr odd group_point_None st])
  qed
qed

lemma scalar_mult_returns:
  assumes pr: "is_prime (curve_p c)" and odd: "curve_p c \<noteq> 2"
    and P: "group_point c P" and G: "P = None \<longrightarrow> group_point c (Some (curve_g c))"
    and n: "curve_n c \<noteq> 0" and k: "0 \<le> k"
  shows "\<exists>R. scalar_mult c k P = Some (Inr R) \<and> group_point c R"
proof -
  let ?p = "if P = None then Some (curve_g c) else P"
  have st: "group_point c ?p" using P G by simp
  show ?thesis
  proof (cases "k mod curve_n c = 0")
    case True
    then show ?thesis using n by (simp add: scalar_mult_def Let_def group_point_None)
  next
    case False
    from scalar_mult_loop_returns [OF pr odd k group_point_None st] obtain R where
      "scalar_mult_loop c k None ?p = Some (Inr R)" "group_point c R" by blast
    then show ?thesis using n False by (auto simp: scalar_mult_def Let_def)
  qed
qed

lemma toy_fields:
  "curve_p (Curve toy_params) = 17" "curve_a (Curve toy_params) = 2"
  "curve_b (Curve toy_params) = 2" "curve_n (Curve toy_params) = 19"
  "curve_g (Curve toy_params) = Point (Some 5) (Some 1)"
  by (simp_all add: Curve_def toy_params_def)

lemma is_prime_17: "is_prime 17"
  by (simp add: is_prime_def upto_rec_numeral)

lemma toy_G: "on_curve (Curve toy_params) (Some (Point (Some 5) (Some 1)))"
  "reduced (Curve toy_params) (Some (Point (Some 5) (Some 1)))"
  by (simp_all add: on_curve_def is_on_curve_def reduced_def infinity_def is_infinite_def toy_fields)

lemma toy_double: "point_add (Curve toy_params) (Some (Point (Some 5) (Some 1))) (Some (Point (Some 5) (Some 1)))
   = Inr (Some (Point (Some 6) (Some 3)))"
  by (simp add: point_add_finite toy_fields modinv_def modinv_loop.simps Let_def)

lemma toy_mult2: "scalar_mult (Curve toy_params) 2 (Some (Point (Some 5) (Some 1)))
   = Some (Inr (Some (Point (Some 6) (Some 3))))"
  by (simp add: scalar_mult_def scalar_mult_loop.simps toy_fields point_add_def is_infinite_def
      modinv_def modinv_loop.simps Let_def drop_bit_eq_div)

lemma toy_mult3: "scalar_mult (Curve toy_params) 3 None
   = Some (Inr (Some (Point (Some 10) (Some 6))))"
  by (simp add: scalar_mult_def scalar_mult_loop.simps toy_fields point_add_def is_infinite_def
      modinv_def modinv_loop.simps Let_def drop_bit_eq_div)

text \<open>
  Claim C9. On a curve over an odd prime modulus, point addition is closed on the points that
  pass \<open>is_on_curve\<close> and have their coordinates reduced into \<open>[0, p - 1]\<close> (the point at
  infinity included): \<open>point_add\<close> returns, without raising, a point that passes
  \<open>is_on_curve\<close> again and is reduced. Consequently every point that \<open>scalar_mult\<close>
  returns from such a point (or from the generator, when the point argument is left out) passes
  \<open>is_on_curve\<close>, and for a scalar \<open>k \<ge> 0\<close> and a non-zero order \<open>scalar_mult\<close>
  does return one.
\<close>

theorem point_add_group_closure:
  assumes pr: "is_prime (curve_p c)" and odd: "curve_p c \<noteq> 2"
  shows "(\<forall>P Q. on_curve c P \<and> reduced c P \<and> on_curve c Q \<and> reduced c Q \<longrightarrow>
            (\<exists>R. point_add c P Q = Inr R \<and> on_curve c R \<and> reduced c R))
       \<and> (\<forall>k P R. on_curve c P \<and> reduced c P
              \<and> (P = None \<longrightarrow> on_curve c (Some (curve_g c)) \<and> reduced c (Some (curve_g c)))
              \<and> scalar_mult c k P = Some (Inr R) \<longrightarrow> on_curve c R \<and> reduced c R)
       \<and> (\<forall>k P. on_curve c P \<and> reduced c P
              \<and> (P = None \<longrightarrow> on_curve c (Some (curve_g c)) \<and> reduced c (Some (curve_g c)))
              \<and> curve_n c \<noteq> 0 \<and> 0 \<le> k \<longrightarrow>
            (\<exists>R. scalar_mult c k P = Some (Inr R) \<and> on_curve c R \<and> reduced c R))"
proof -
  have a: "\<forall>P Q. on_curve c P \<and> reduced c P \<and> on_curve c Q \<and> reduced c Q \<longrightarrow>
      (\<exists>R. point_add c P Q = Inr R \<and> on_curve c R \<and> reduced c R)"
    using point_add_closed [OF pr odd] by blast
  have b: "\<forall>k P R. on_curve c P \<and> reduced c P
      \<and> (P = None \<longrightarrow> on_curve c (Some (curve_g c)) \<and> reduced c (Some (curve_g c)))
      \<and> scalar_mult c k P = Some (Inr R) \<longrightarrow> on_curve c R \<and> reduced c R"
  proof (intro allI impI)
    fix k :: int and P R :: "point option"
    assume h: "on_curve c P \<and> reduced c P
      \<and> (P = None \<longrightarrow> on_curve c (Some (curve_g c)) \<and> reduced c (Some (curve_g c)))
      \<and> scalar_mult c k P = Some (Inr R)"
    have "group_point c R"
      by (rule scalar_mult_produces_group_point [OF pr odd, of P k])
        (use h in \<open>simp_all add: group_point_def\<close>)
    then show "on_curve c R \<and> reduced c R" by (simp add: group_point_def)
  qed
  have d: "\<forall>k P. on_curve c P \<and> reduced c P
      \<and> (P = None \<longrightarrow> on_curve c (Some (curve_g c)) \<and> reduced c (Some (curve_g c)))
      \<and> curve_n c \<noteq> 0 \<and> 0 \<le> k \<longrightarrow>
      (\<exists>R. scalar_mult c k P = Some (Inr R) \<and> on_curve c R \<and> reduced c R)"
  proof (intro allI impI)
    fix k :: int and P :: "point option"
    assume h: "on_curve c P \<and> reduced c P
      \<and> (P = None \<longrightarrow> on_curve c (Some (curve_g c)) \<and> reduced c (Some (curve_g c)))
      \<and> curve_n c \<noteq> 0 \<and> 0 \<le> k"
    have "\<exists>R. scalar_mult c k P = Some (Inr R) \<and> group_point c R"
      by (rule scalar_mult_returns [OF pr odd, of P k])
        (use h in \<open>simp_all add: group_point_def\<close>)
    then show "\<exists>R. scalar_mult c k P = Some (Inr R) \<and> on_curve c R \<and> reduced c R"
      by (simp add: group_point_def)
  qed
  show ?thesis by (intro conjI) (rule a, rule b, rule d)
qed

theorem point_add_group_closure_witness:
  "is_prime (curve_p (Curve toy_params)) \<and> curve_p (Curve toy_params) \<noteq> 2
   \<and> on_curve (Curve toy_params) (Some (Point (Some 5) (Some 1)))
   \<and> reduced (Curve toy_params) (Some (Point (Some 5) (Some 1)))
   \<and> (\<exists>R. point_add (Curve toy_params) (Some (Point (Some 5) (Some 1)))
             (Some (Point (Some 5) (Some 1))) = Inr R
          \<and> on_curve (Curve toy_params) R \<and> reduced (Curve toy_params) R)
   \<and> scalar_mult (Curve toy_params) 2 (Some (Point (Some 5) (Some 1)))
       = Some (Inr (Some (Point (Some 6) (Some 3))))
   \<and> on_curve (Curve toy_params) (Some (Point (Some 6) (Some 3)))
   \<and> curve_n (Curve toy_params) \<noteq> 0 \<and> (0::int) \<le> 3
   \<and> (\<exists>R. scalar_mult (Curve toy_params) 3 (Some (Point (Some 5) (Some 1))) = Some (Inr R)
          \<and> on_curve (Curve toy_params) R \<and> reduced (Curve toy_params) R)"
proof -
  let ?c = "Curve toy_params" and ?G = "Some (Point (Some 5) (Some 1))"
  have pr: "is_prime (curve_p ?c)" by (simp add: toy_fields is_prime_17)
  have odd: "curve_p ?c \<noteq> 2" by (simp add: toy_fields)
  have n: "curve_n ?c \<noteq> 0" by (simp add: toy_fields)
  have k: "(0::int) \<le> 3" by simp
  have G: "?G \<noteq> None" by simp
  note cl = point_add_group_closure [OF pr odd]
  note cl1 = conjunct1 [OF cl] and cl2 = conjunct1 [OF conjunct2 [OF cl]]
    and cl3 = conjunct2 [OF conjunct2 [OF cl]]
  have a: "\<exists>R. point_add ?c ?G ?G = Inr R \<and> on_curve ?c R \<and> reduced ?c R"
    by (rule cl1 [rule_format]) (simp add: toy_G)
  have "on_curve ?c (Some (Point (Some 6) (Some 3))) \<and> reduced ?c (Some (Point (Some 6) (Some 3)))"
    by (rule cl2 [rule_format, of ?G 2]) (simp add: toy_G toy_mult2)
  then have b: "on_curve ?c (Some (Point (Some 6) (Some 3)))" by (rule conjunct1)
  have d: "\<exists>R. scalar_mult ?c 3 ?G = Some (Inr R) \<and> on_curve ?c R \<and> reduced ?c R"
    by (rule cl3 [rule_format]) (simp add: toy_G n)
  show ?thesis
    by (intro conjI) (rule pr, rule odd, rule toy_G(1), rule toy_G(2), rule a, rule toy_mult2,
        rule b, rule n, rule k, rule d)
qed

section \<open>Commutativity of point addition\<close>

lemma point_add_chord_commute:
  assumes pr: "is_prime (curve_p c)"
    and r1: "0 \<le> x1" "x1 < curve_p c" and r2: "0 \<le> x2" "x2 < curve_p c"
    and ne: "x1 \<noteq> x2"
  shows "point_add c (Some (Point (Some x1) (Some y1))) (Some (Point (Some x2) (Some y2)))
       = point_add c (Some (Point (Some x2) (Some y2))) (Some (Point (Some x1) (Some y1)))"
proof -
  let ?p = "curve_p c"
  have p1: "1 < ?p" using pr by (rule is_prime_gt1)
  have cop1: "coprime (x2 - x1) ?p" by (rule coprime_difference [OF pr r1 r2 ne])
  have cop2: "coprime (x1 - x2) ?p" by (rule coprime_difference [OF pr r2 r1 ne [symmetric]])
  from modinv_inverse [OF p1 cop1] obtain i where
    i: "modinv (x2 - x1) ?p = Inr i" and u: "?p dvd ((x2 - x1) * i - 1)" by blast
  from modinv_inverse [OF p1 cop2] obtain j where
    j: "modinv (x1 - x2) ?p = Inr j" and w: "?p dvd ((x1 - x2) * j - 1)" by blast
  define M where "M = (y2 - y1) * i mod ?p"
  define N where "N = (y1 - y2) * j mod ?p"
  have dM: "?p dvd (M * (x2 - x1) - (y2 - y1))"
    unfolding M_def by (rule slope_times_denominator [OF u])
  have dN: "?p dvd (N * (x1 - x2) - (y1 - y2))"
    unfolding N_def by (rule slope_times_denominator [OF w])
  have "?p dvd (M * (x2 - x1) - (y2 - y1)) + (N * (x1 - x2) - (y1 - y2))"
    using dM dN by (rule dvd_add)
  moreover have "(M * (x2 - x1) - (y2 - y1)) + (N * (x1 - x2) - (y1 - y2)) = (M - N) * (x2 - x1)"
    by (simp add: algebra_simps)
  ultimately have "?p dvd (M - N) * (x2 - x1)" by simp
  then have "?p dvd (M - N) \<or> ?p dvd (x2 - x1)" by (rule is_prime_dvd_mult [OF pr])
  moreover have "\<not> ?p dvd (x2 - x1)"
  proof
    assume d: "?p dvd (x2 - x1)"
    have "\<bar>x2 - x1\<bar> < ?p" using r1 r2 by simp
    with d have "x2 - x1 = 0" by (rule dvd_small_int)
    then show False using ne by simp
  qed
  ultimately have "?p dvd (M - N)" by simp
  moreover have "\<bar>M - N\<bar> < ?p"
  proof -
    have "0 \<le> M" "M < ?p" "0 \<le> N" "N < ?p" using p1 by (simp_all add: M_def N_def)
    then show ?thesis by simp
  qed
  ultimately have "M - N = 0" by (rule dvd_small_int)
  then have MN: "N = M" by simp
  define X where "X = (M * M - x1 - x2) mod ?p"
  have X': "(M * M - x2 - x1) mod ?p = X" by (simp add: X_def algebra_simps)
  have "?p dvd ((M * (x1 - X) - y1) - (M * (x2 - X) - y2))"
  proof -
    have eq: "(M * (x1 - X) - y1) - (M * (x2 - X) - y2) = - (M * (x2 - x1) - (y2 - y1))"
      by (simp add: algebra_simps)
    show ?thesis unfolding eq using dM by (simp only: dvd_minus_iff)
  qed
  then have Y: "(M * (x1 - X) - y1) mod ?p = (M * (x2 - X) - y2) mod ?p"
    by (simp add: mod_eq_dvd_iff)
  have lhs: "point_add c (Some (Point (Some x1) (Some y1))) (Some (Point (Some x2) (Some y2)))
      = Inr (Some (Point (Some X) (Some ((M * (x1 - X) - y1) mod ?p))))"
    using ne i by (simp add: point_add_finite Let_def M_def X_def)
  have rhs: "point_add c (Some (Point (Some x2) (Some y2))) (Some (Point (Some x1) (Some y1)))
      = Inr (Some (Point (Some X) (Some ((M * (x2 - X) - y2) mod ?p))))"
    using ne j X' by (simp add: point_add_finite Let_def N_def [symmetric] MN)
  show ?thesis unfolding lhs rhs using Y by simp
qed

lemma point_add_finite_commute:
  assumes pr: "is_prime (curve_p c)"
    and oP: "on_curve c (Some (Point (Some x1) (Some y1)))"
    and rP: "reduced c (Some (Point (Some x1) (Some y1)))"
    and oQ: "on_curve c (Some (Point (Some x2) (Some y2)))"
    and rQ: "reduced c (Some (Point (Some x2) (Some y2)))"
  shows "point_add c (Some (Point (Some x1) (Some y1))) (Some (Point (Some x2) (Some y2)))
       = point_add c (Some (Point (Some x2) (Some y2))) (Some (Point (Some x1) (Some y1)))"
proof -
  let ?p = "curve_p c" and ?a = "curve_a c" and ?b = "curve_b c"
  have p1: "1 < ?p" using pr by (rule is_prime_gt1)
  then have p0: "?p \<noteq> 0" by simp
  have E1: "?p dvd (y1\<^sup>2 - (x1 ^ 3 + ?a * x1 + ?b))" using oP on_curve_finite [OF p0] by simp
  have E2: "?p dvd (y2\<^sup>2 - (x2 ^ 3 + ?a * x2 + ?b))" using oQ on_curve_finite [OF p0] by simp
  have r1: "0 \<le> x1" "x1 < ?p" "0 \<le> y1" "y1 < ?p" using rP by (simp_all add: reduced_finite)
  have r2: "0 \<le> x2" "x2 < ?p" "0 \<le> y2" "y2 < ?p" using rQ by (simp_all add: reduced_finite)
  show ?thesis
  proof (cases "x1 = x2")
    case True
    from same_abscissa [OF pr E1 E2 [folded True] r1(3,4) r2(3,4)]
    have "y1 = y2 \<or> (y1 + y2) mod ?p = 0" .
    then show ?thesis
    proof
      assume "y1 = y2"
      then show ?thesis using True by simp
    next
      assume z: "(y1 + y2) mod ?p = 0"
      then have "(y2 + y1) mod ?p = 0" by (simp add: add.commute)
      then show ?thesis using z True p0 by (simp add: point_add_finite)
    qed
  next
    case False
    then show ?thesis by (rule point_add_chord_commute [OF pr r1(1,2) r2(1,2)])
  qed
qed

text \<open>
  Claim C10, as amended. On a curve over a prime modulus, for points \<open>P\<close> and \<open>Q\<close> that pass
  \<open>is_on_curve\<close> and are reduced: \<open>point_add(P, Q) == point_add(Q, P)\<close> unless both are
  points at infinity; when both are, \<open>point_add(P, Q)\<close> returns \<open>Q\<close> and
  \<open>point_add(Q, P)\<close> returns \<open>P\<close>, two representations of infinity that are equal only
  if \<open>P\<close> and \<open>Q\<close> are.
\<close>

theorem point_add_commutative:
  assumes pr: "is_prime (curve_p c)"
    and oP: "on_curve c P" and rP: "reduced c P"
    and oQ: "on_curve c Q" and rQ: "reduced c Q"
  shows "(\<not> (infinity P \<and> infinity Q) \<longrightarrow> point_add c P Q = point_add c Q P)
       \<and> (infinity P \<and> infinity Q \<longrightarrow>
            point_add c P Q = Inr Q \<and> point_add c Q P = Inr P \<and> infinity Q \<and> infinity P)"
proof (cases "infinity P")
  case iP: True
  show ?thesis
  proof (cases "infinity Q")
    case True
    then show ?thesis using iP by (simp add: point_add_infinity_left)
  next
    case False
    then show ?thesis using iP by (simp add: point_add_infinity_left point_add_infinity_right)
  qed
next
  case nP: False
  show ?thesis
  proof (cases "infinity Q")
    case True
    then show ?thesis using nP by (simp add: point_add_infinity_left point_add_infinity_right)
  next
    case nQ: False
    from nP obtain x1 y1 where P: "P = Some (Point (Some x1) (Some y1))"
      by (rule finite_point_cases)
    from nQ obtain x2 y2 where Q: "Q = Some (Point (Some x2) (Some y2))"
      by (rule finite_point_cases)
    have "point_add c P Q = point_add c Q P"
      using point_add_finite_commute [OF pr] oP rP oQ rQ unfolding P Q by blast
    then show ?thesis using nP nQ by simp
  qed
qed

theorem point_add_commutative_witness:
  "is_prime (curve_p (Curve toy_params))
   \<and> on_curve (Curve toy_params) (Some (Point (Some 5) (Some 1)))
   \<and> reduced (Curve toy_params) (Some (Point (Some 5) (Some 1)))
   \<and> on_curve (Curve toy_params) (Some (Point (Some 6) (Some 3)))
   \<and> reduced (Curve toy_params) (Some (Point (Some 6) (Some 3)))
   \<and> \<not> (infinity (Some (Point (Some 5) (Some 1))) \<and> infinity (Some (Point (Some 6) (Some 3))))
   \<and> point_add (Curve toy_params) (Some (Point (Some 5) (Some 1))) (Some (Point (Some 6) (Some 3)))
       = point_add (Curve toy_params) (Some (Point (Some 6) (Some 3))) (Some (Point (Some 5) (Some 1)))
   \<and> infinity None \<and> infinity (Some (Point None None))
   \<and> point_add (Curve toy_params) None (Some (Point None None)) = Inr (Some (Point None None))
   \<and> point_add (Curve toy_params) (Some (Point None None)) None = Inr None"
proof -
  let ?c = "Curve toy_params" and ?G = "Some (Point (Some 5) (Some 1))"
  let ?H = "Some (Point (Some 6) (Some 3))" and ?I = "Some (Point None None)"
  have pr: "is_prime (curve_p ?c)" by (simp add: toy_fields is_prime_17)
  have H: "on_curve ?c ?H" "reduced ?c ?H"
    by (simp_all add: on_curve_def is_on_curve_def reduced_def infinity_def is_infinite_def
        toy_fields)
  have nf: "\<not> (infinity ?G \<and> infinity ?H)" by (simp add: infinity_def is_infinite_def)
  have inf: "infinity None" "infinity ?I" by (simp_all add: infinity_def is_infinite_def)
  have oi: "on_curve ?c None" "reduced ?c None" "on_curve ?c ?I" "reduced ?c ?I"
    using inf by (simp_all add: on_curve_infinity reduced_infinity)
  note c1 = point_add_commutative [OF pr toy_G H]
  note c2 = point_add_commutative [OF pr oi]
  have a: "point_add ?c ?G ?H = point_add ?c ?H ?G"
    by (rule conjunct1 [OF c1, rule_format, OF nf])
  have b: "point_add ?c None ?I = Inr ?I \<and> point_add ?c ?I None = Inr None \<and> infinity ?I
      \<and> infinity None"
    by (rule conjunct2 [OF c2, rule_format]) (simp add: inf)
  show ?thesis
    by (intro conjI) (rule pr, rule toy_G(1), rule toy_G(2), rule H(1), rule H(2), rule nf,
        rule a, rule inf(1), rule inf(2), rule conjunct1 [OF b],
        rule conjunct1 [OF conjunct2 [OF b]])
qed

text \<open>
  Claim C10 as stated fails where both arguments are the point at infinity in different
  representations: \<open>None\<close> and \<open>Point(None, None)\<close> both pass \<open>is_on_curve\<close>, and
  \<open>point_add\<close> returns its other argument unchanged.
\<close>

theorem point_add_commutative_counterexample:
  "is_on_curve (Curve P256) None = Inr True
   \<and> is_on_curve (Curve P256) (Some (Point None None)) = Inr True
   \<and> point_add (Curve P256) None (Some (Point None None))
       \<noteq> point_add (Curve P256) (Some (Point None None)) None"
  by (simp add: is_on_curve_def point_add_def is_infinite_def)

section \<open>Verification on malformed and on short-coordinate input\<close>

lemma from_bytes_append:
  "from_bytes (xs @ ys) = from_bytes xs * 256 ^ length ys + from_bytes ys"
proof (induction ys rule: rev_induct)
  case Nil
  show ?case by (simp add: from_bytes_Nil)
next
  case (snoc y ys)
  have "from_bytes (xs @ ys @ [y]) = from_bytes ((xs @ ys) @ [y])" by simp
  also have "\<dots> = from_bytes (xs @ ys) * 256 + uint y" by (rule from_bytes_snoc)
  finally show ?case using snoc by (simp add: from_bytes_snoc algebra_simps)
qed

lemma from_bytes_zeros: "from_bytes (replicate k 0) = 0"
proof (induction k)
  case 0
  show ?case by (simp add: from_bytes_Nil)
next
  case (Suc k)
  have "from_bytes (replicate (Suc k) 0) = from_bytes (replicate k 0 @ [0])"
    by (simp only: replicate_append_same replicate_Suc)
  also have "\<dots> = from_bytes (replicate k 0) * 256 + uint (0 :: byte)"
    by (rule from_bytes_snoc)
  finally show ?case using Suc by simp
qed

lemma verify_zero_s:
  assumes "is_on_curve (sg_curve sg)
      (Some (Point (Some (from_bytes (take (length pk div 2) pk)))
                   (Some (from_bytes (drop (length pk div 2) pk))))) = Inr True"
    and "from_bytes (drop (length sig div 2) sig) = 0"
  shows "verify sg pk message sig = Some (Inl ValueError)"
  using assms by (simp add: verify_def Let_def modinv_def)

lemma ECDSASigner_P256:
  "curves ''P-256'' = Some P256 \<Longrightarrow> ECDSASigner curves hl ''P-256'' = Inr (P256_signer (sha256 hl))"
  by (simp add: ECDSASigner_def get_curve_def P256_signer_def)

lemma P256_G_equation:
  "(prm_gy P256)\<^sup>2 - ((prm_gx P256) ^ 3 + prm_a P256 * prm_gx P256 + prm_b P256)
   = prm_p P256 * (-981570988164258562257936101525215858910690391106138407341175333813841188485250211304702756335769806812218430760112952189411297841053183197247161910150894)"
  by (simp add: P256_def power2_eq_square power3_eq_cube)

lemma P256_G_on_curve:
  "is_on_curve (Curve P256) (Some (Point (Some (prm_gx P256)) (Some (prm_gy P256)))) = Inr True"
proof -
  have "prm_p P256 dvd (prm_gy P256)\<^sup>2
      - ((prm_gx P256) ^ 3 + prm_a P256 * prm_gx P256 + prm_b P256)"
    unfolding P256_G_equation by (rule dvd_triv_left)
  then have "((prm_gy P256)\<^sup>2
      - ((prm_gx P256) ^ 3 + prm_a P256 * prm_gx P256 + prm_b P256)) mod prm_p P256 = 0"
    by (simp only: mod_eq_0_iff_dvd)
  moreover have "prm_p P256 \<noteq> 0" using P256_bounds(1) by simp
  ultimately show ?thesis
    by (simp add: is_on_curve_def is_infinite_def Curve_def)
qed

lemma P256_G_key_split:
  "length P256_G_key div 2 = 32"
  "from_bytes (take 32 P256_G_key) = prm_gx P256"
  "from_bytes (drop 32 P256_G_key) = prm_gy P256"
proof -
  have b: "0 \<le> prm_gx P256" "prm_gx P256 < 256 ^ 32" "0 \<le> prm_gy P256" "prm_gy P256 < 256 ^ 32"
    by (simp_all add: P256_def)
  show "length P256_G_key div 2 = 32" by (simp add: P256_G_key_def length_be_digits)
  show "from_bytes (take 32 P256_G_key) = prm_gx P256"
    by (simp add: P256_G_key_def length_be_digits from_bytes_be_digits [OF b(1,2)])
  show "from_bytes (drop 32 P256_G_key) = prm_gy P256"
    by (simp add: P256_G_key_def length_be_digits from_bytes_be_digits [OF b(3,4)])
qed

text \<open>
  Claim C1 says that \<open>verify\<close> returns a boolean on every input. On the curve P-256, with
  the generator as public key (a point on the curve), every signature whose second half is
  made of zero bytes, the empty signature among them, decodes to \<open>s = 0\<close>, and \<open>verify\<close>
  hands it to \<open>modinv\<close> without any handler: the call ends in \<open>ValueError\<close>, for every
  hash function and message.
\<close>

theorem verify_raises_on_zero_s:
  "verify (P256_signer hf) P256_G_key message (rb @ replicate (length rb) 0)
   = Some (Inl ValueError)"
proof (rule verify_zero_s)
  show "is_on_curve (sg_curve (P256_signer hf))
      (Some (Point (Some (from_bytes (take (length P256_G_key div 2) P256_G_key)))
                   (Some (from_bytes (drop (length P256_G_key div 2) P256_G_key))))) = Inr True"
    unfolding P256_G_key_split by (simp add: P256_signer_def P256_G_on_curve)
  show "from_bytes (drop (length (rb @ replicate (length rb) 0) div 2)
      (rb @ replicate (length rb) 0)) = 0"
    by (simp add: from_bytes_zeros)
qed

lemma mod_certificate:
  fixes p :: int
  assumes "A = p * t + r" "0 \<le> r" "r < p"
  shows "A mod p = r"
  using assms by simp

lemma div_mod_certificate:
  fixes x :: int
  assumes "x = 256 * h + l" "0 \<le> l" "l < 256"
  shows "x div 256 = h" "x mod 256 = l"
  using assms by simp_all

lemma be_digits_32: "be_digits 32 i = be_digits 31 (i div 256) @ [word_of_int (i mod 256)]"
proof -
  have "be_digits (Suc 31) i = be_digits 31 (i div 256) @ [word_of_int (i mod 256)]"
    by (rule be_digits.simps)
  then show ?thesis by simp
qed

lemma P256_x43_split:
  "P256_x43 div 256 = 269298440377718406831878480467663484789618331328366052381566115655909606098" "P256_x43 mod 256 = 141"
  by (rule div_mod_certificate [of _ _ 141]; simp add: P256_x43_def)+

lemma P256_key43_split:
  "length P256_key43 div 2 = 31"
  "from_bytes (take 31 P256_key43) = 269298440377718406831878480467663484789618331328366052381566115655909606098"
  "from_bytes (drop 31 P256_key43) = 63883535624202428500556349501269175557539737517939618574035851375974665977495"
proof -
  have k: "P256_key43 = be_digits 31 269298440377718406831878480467663484789618331328366052381566115655909606098 @ [141] @ be_digits 31 P256_y43"
    by (simp add: P256_key43_def be_digits_32 P256_x43_split)
  have b: "(0::int) \<le> 269298440377718406831878480467663484789618331328366052381566115655909606098" "(269298440377718406831878480467663484789618331328366052381566115655909606098::int) < 256 ^ 31" "0 \<le> P256_y43" "P256_y43 < 256 ^ 31"
    by (simp_all add: P256_y43_def)
  show "length P256_key43 div 2 = 31" by (simp add: k length_be_digits)
  show "from_bytes (take 31 P256_key43) = 269298440377718406831878480467663484789618331328366052381566115655909606098"
    by (simp add: k length_be_digits from_bytes_be_digits [OF b(1,2)])
  have "from_bytes (drop 31 P256_key43) = from_bytes ([141] @ be_digits 31 P256_y43)"
    by (simp add: k length_be_digits)
  also have "\<dots> = from_bytes [141] * 256 ^ 31 + P256_y43"
    by (simp only: from_bytes_append length_be_digits from_bytes_be_digits [OF b(3,4)])
  also have "\<dots> = 63883535624202428500556349501269175557539737517939618574035851375974665977495"
    by (simp add: from_bytes_def P256_y43_def)
  finally show "from_bytes (drop 31 P256_key43) = 63883535624202428500556349501269175557539737517939618574035851375974665977495" .
qed

lemma P256_key43_equation:
  "(63883535624202428500556349501269175557539737517939618574035851375974665977495::int)\<^sup>2 - (269298440377718406831878480467663484789618331328366052381566115655909606098 ^ 3 + prm_a P256 * 269298440377718406831878480467663484789618331328366052381566115655909606098 + prm_b P256) = prm_p P256 * (-168664088963898412419843829501466125995612648757770564476086716405708777003273204402309401760393234108916017364377247046519016026061153155705298708) + 94710823006629292543040130924965068988851802934841382670819345653093824880946"
  by (simp add: P256_def power2_eq_square power3_eq_cube)

lemma P256_key43_off_curve:
  "is_on_curve (Curve P256) (Some (Point (Some 269298440377718406831878480467663484789618331328366052381566115655909606098) (Some 63883535624202428500556349501269175557539737517939618574035851375974665977495))) = Inr False"
proof -
  have "((63883535624202428500556349501269175557539737517939618574035851375974665977495::int)\<^sup>2 - (269298440377718406831878480467663484789618331328366052381566115655909606098 ^ 3 + prm_a P256 * 269298440377718406831878480467663484789618331328366052381566115655909606098 + prm_b P256)) mod prm_p P256 = 94710823006629292543040130924965068988851802934841382670819345653093824880946"
    by (rule mod_certificate [OF P256_key43_equation]) (simp_all add: P256_def)
  moreover have "prm_p P256 \<noteq> 0" using P256_bounds(1) by simp
  ultimately show ?thesis
    by (simp add: is_on_curve_def is_infinite_def Curve_def)
qed

lemma verify_off_curve:
  assumes "is_on_curve (sg_curve sg)
      (Some (Point (Some (from_bytes (take (length pk div 2) pk)))
                   (Some (from_bytes (drop (length pk div 2) pk))))) = Inr False"
  shows "verify sg pk message sig = Some (Inr False)"
  using assms by (simp add: verify_def Let_def)

text \<open>
  Claim C2 says that \<open>verify\<close> accepts the signature of every message under every key pair of
  \<open>generate_keypair\<close>. \<open>generate_keypair\<close> encodes each coordinate of the public point
  on as many bytes as it needs and \<open>verify\<close> cuts the key in the middle. The public point of
  the private key \<open>43\<close> on P-256 has an abscissa of \<open>32\<close> bytes and an ordinate of
  \<open>31\<close>: the key has \<open>63\<close> bytes, the cut after the \<open>31\<close>st leaves a point that
  is not on the curve, and \<open>verify\<close> answers \<open>False\<close> to every message and every
  signature, the one \<open>sign\<close> makes included.
\<close>

theorem verify_rejects_key43:
  "verify (P256_signer hf) P256_key43 message signature = Some (Inr False)"
proof (rule verify_off_curve)
  show "is_on_curve (sg_curve (P256_signer hf))
      (Some (Point (Some (from_bytes (take (length P256_key43 div 2) P256_key43)))
                   (Some (from_bytes (drop (length P256_key43 div 2) P256_key43))))) = Inr False"
    unfolding P256_key43_split by (simp add: P256_signer_def P256_key43_off_curve)
qed

end
